theory Spec2Isabelle
  imports Main "HOL-Library.Word" "HOL-Library.Multiset"
begin

section \<open>Data model of the bandwidth monitor (main.go)\<close>

text \<open>
  The Go program keeps one \<open>BandwidthMonitor\<close>. Its device map holds pointers to
  \<open>DeviceStats\<close> records that \<open>UpdateStats\<close> mutates in place and that
  \<open>GetNetworkStats\<close> copies, so the records live in an explicit store: an address
  is a natural number, \<open>store\<close> maps every address to the record in that cell and
  \<open>fresh\<close> is the next address the allocator hands out (cells from \<open>fresh\<close> on
  are unallocated and hold the zero record). \<open>uint64\<close> is \<open>64 word\<close>, so
  \<open>+\<close> wraps as in Go. \<open>time.Time\<close> is an integer instant; \<open>time.Now()\<close> is
  an argument of the operation that reads the clock.
\<close>

type_synonym u64 = "64 word"
type_synonym addr = nat
type_synonym time = int
type_synonym conn = nat

record DeviceStats =
  MAC :: string
  IP :: string
  BytesSent :: u64
  BytesRecv :: u64
  PacketsSent :: u64
  PacketsRecv :: u64
  LastSeen :: time
  Hostname :: string

text \<open>
  \<open>NetworkStats.Devices\<close> is a slice of pointers to the copies.
  \<open>MonitorDuration\<close> is kept as the elapsed \<open>time.Duration\<close>; its conversion to
  float seconds is not represented.
\<close>

record NetworkStats =
  Devices :: "addr list"
  TotalSent :: u64
  TotalRecv :: u64
  TotalPackets :: u64
  ActiveDevices :: int
  MonitorDuration :: int
  Timestamp :: time

text \<open>
  \<open>sync.RWMutex\<close>, as far as one goroutine sees it: the number of read locks held
  and whether the write lock is held. An acquisition that cannot proceed returns
  \<open>None\<close>: the caller is parked until the lock is released.
\<close>

record RWMutex =
  readers :: nat
  writer :: bool

definition RLock :: "RWMutex \<Rightarrow> RWMutex option" where
  "RLock m = (if writer m then None else Some (m\<lparr>readers := Suc (readers m)\<rparr>))"

definition RUnlock :: "RWMutex \<Rightarrow> RWMutex" where
  "RUnlock m = m\<lparr>readers := readers m - 1\<rparr>"

definition Lock :: "RWMutex \<Rightarrow> RWMutex option" where
  "Lock m = (if writer m \<or> 0 < readers m then None else Some (m\<lparr>writer := True\<rparr>))"

definition Unlock :: "RWMutex \<Rightarrow> RWMutex" where
  "Unlock m = m\<lparr>writer := False\<rparr>"

text \<open>
  The monitor and the part of the world it acts on. \<open>devices\<close>, \<open>localIP\<close>,
  \<open>startTime\<close>, \<open>clients\<close>, \<open>clientsMu\<close> and \<open>broadcast\<close> are the fields of
  \<open>BandwidthMonitor\<close> (\<open>clients\<close> only ever maps a connection to \<open>true\<close>, so it
  is the set of its keys; \<open>broadcast\<close> is the content of the buffered channel, oldest
  first). \<open>bm.mutex\<close> is taken and released around the whole body of each registry
  operation and never nested, so each registry operation is one atomic step and the
  lock itself is not a field. \<open>store\<close> and \<open>fresh\<close> are the heap of
  \<open>DeviceStats\<close> cells; \<open>delivered\<close> is what has been written to each WebSocket
  connection and \<open>closed\<close> the connections on which \<open>Close\<close> was called.
\<close>

record state =
  devices :: "string \<rightharpoonup> addr"
  localIP :: string
  startTime :: time
  clients :: "conn set"
  clientsMu :: RWMutex
  broadcast :: "NetworkStats list"
  store :: "addr \<Rightarrow> DeviceStats"
  fresh :: addr
  delivered :: "conn \<Rightarrow> NetworkStats list"
  closed :: "conn set"

definition zero_DeviceStats :: DeviceStats where
  "zero_DeviceStats = \<lparr>MAC = '''', IP = '''', BytesSent = 0, BytesRecv = 0,
     PacketsSent = 0, PacketsRecv = 0, LastSeen = 0, Hostname = ''''\<rparr>"

definition broadcast_cap :: nat where
  "broadcast_cap = 256"

definition NewBandwidthMonitor :: "string \<Rightarrow> time \<Rightarrow> state" where
  "NewBandwidthMonitor lip now =
     \<lparr>devices = Map.empty, localIP = lip, startTime = now, clients = {},
      clientsMu = \<lparr>readers = 0, writer = False\<rparr>, broadcast = [],
      store = (\<lambda>_. zero_DeviceStats), fresh = 0, delivered = (\<lambda>_. []), closed = {}\<rparr>"

section \<open>UpdateStats\<close>

definition broadcastMAC :: string where
  "broadcastMAC = ''ff:ff:ff:ff:ff:ff''"

text \<open>
  \<open>if _, exists := bm.devices[key]; !exists { bm.devices[key] = &DeviceStats{MAC: key, IP: ip} }\<close>:
  the pointer stored under \<open>key\<close> afterwards, and the state. Every later
  \<open>bm.devices[key]\<close> of the same block reads this pointer.
\<close>

definition obtain_device :: "string \<Rightarrow> string \<Rightarrow> state \<Rightarrow> addr \<times> state" where
  "obtain_device key ip s =
     (case devices s key of
        Some p \<Rightarrow> (p, s)
      | None \<Rightarrow>
          (fresh s,
           s\<lparr>devices := (devices s)(key \<mapsto> fresh s),
             store := (store s)(fresh s := zero_DeviceStats\<lparr>MAC := key, IP := ip\<rparr>),
             fresh := Suc (fresh s)\<rparr>))"

text \<open>Line 91, \<open>bm.devices[key].BytesSent += packetSize\<close>, on the record behind the pointer.\<close>

definition add_bytes_sent :: "u64 \<Rightarrow> DeviceStats \<Rightarrow> DeviceStats" where
  "add_bytes_sent packetSize d = d\<lparr>BytesSent := BytesSent d + packetSize\<rparr>"

text \<open>The four statements of the source block (lines 91 to 96).\<close>

definition credit_sent :: "time \<Rightarrow> string \<Rightarrow> u64 \<Rightarrow> DeviceStats \<Rightarrow> DeviceStats" where
  "credit_sent now srcIP packetSize d0 =
     (let d1 = add_bytes_sent packetSize d0;
          d2 = d1\<lparr>PacketsSent := PacketsSent d1 + 1\<rparr>;
          d3 = d2\<lparr>LastSeen := now\<rparr>
      in if srcIP \<noteq> '''' \<and> IP d3 = '''' then d3\<lparr>IP := srcIP\<rparr> else d3)"

text \<open>The four statements of the destination block.\<close>

definition credit_recv :: "time \<Rightarrow> string \<Rightarrow> u64 \<Rightarrow> DeviceStats \<Rightarrow> DeviceStats" where
  "credit_recv now dstIP packetSize d0 =
     (let d1 = d0\<lparr>BytesRecv := BytesRecv d0 + packetSize\<rparr>;
          d2 = d1\<lparr>PacketsRecv := PacketsRecv d1 + 1\<rparr>;
          d3 = d2\<lparr>LastSeen := now\<rparr>
      in if dstIP \<noteq> '''' \<and> IP d3 = '''' then d3\<lparr>IP := dstIP\<rparr> else d3)"

definition UpdateStats_src :: "time \<Rightarrow> string \<Rightarrow> string \<Rightarrow> u64 \<Rightarrow> state \<Rightarrow> state" where
  "UpdateStats_src now srcMAC srcIP packetSize s =
     (if srcMAC \<noteq> '''' \<and> srcMAC \<noteq> broadcastMAC then
        (case obtain_device srcMAC srcIP s of
           (p, s1) \<Rightarrow> s1\<lparr>store := (store s1)(p := credit_sent now srcIP packetSize (store s1 p))\<rparr>)
      else s)"

text \<open>
  The state in the middle of the source block: lines 83 to 91 have run, lines 92 to 96
  have not. No other registry operation sees this state, since \<open>bm.mutex\<close> is held;
  code that reads a record without the lock can.
\<close>

definition UpdateStats_src_upto_line_91 :: "string \<Rightarrow> string \<Rightarrow> u64 \<Rightarrow> state \<Rightarrow> state" where
  "UpdateStats_src_upto_line_91 srcMAC srcIP packetSize s =
     (if srcMAC \<noteq> '''' \<and> srcMAC \<noteq> broadcastMAC then
        (case obtain_device srcMAC srcIP s of
           (p, s1) \<Rightarrow> s1\<lparr>store := (store s1)(p := add_bytes_sent packetSize (store s1 p))\<rparr>)
      else s)"

definition UpdateStats_dst :: "time \<Rightarrow> string \<Rightarrow> string \<Rightarrow> u64 \<Rightarrow> state \<Rightarrow> state" where
  "UpdateStats_dst now dstMAC dstIP packetSize s =
     (if dstMAC \<noteq> '''' \<and> dstMAC \<noteq> broadcastMAC then
        (case obtain_device dstMAC dstIP s of
           (p, s1) \<Rightarrow> s1\<lparr>store := (store s1)(p := credit_recv now dstIP packetSize (store s1 p))\<rparr>)
      else s)"

definition UpdateStats ::
  "time \<Rightarrow> string \<Rightarrow> string \<Rightarrow> string \<Rightarrow> string \<Rightarrow> u64 \<Rightarrow> state \<Rightarrow> state" where
  "UpdateStats now srcMAC dstMAC srcIP dstIP packetSize s =
     UpdateStats_dst now dstMAC dstIP packetSize (UpdateStats_src now srcMAC srcIP packetSize s)"

section \<open>GetNetworkStats\<close>

text \<open>
  The \<open>range\<close> loop over \<open>bm.devices\<close>. Go visits every key of the map once, in
  an order of the runtime's choosing: \<open>order\<close> is that order. Each record is copied
  into a new cell (\<open>devCopy := *dev\<close>), whose address is appended to the slice, and
  the three totals are accumulated from the registry's record.
\<close>

fun range_devices ::
  "string list \<Rightarrow> addr list \<times> u64 \<times> u64 \<times> u64 \<Rightarrow> state \<Rightarrow> (addr list \<times> u64 \<times> u64 \<times> u64) \<times> state" where
  "range_devices [] acc s = (acc, s)"
| "range_devices (k # ks) (devs, totalSent, totalRecv, totalPackets) s =
     (case devices s k of
        None \<Rightarrow> range_devices ks (devs, totalSent, totalRecv, totalPackets) s
      | Some dev \<Rightarrow>
          range_devices ks
            (devs @ [fresh s],
             totalSent + BytesSent (store s dev),
             totalRecv + BytesRecv (store s dev),
             totalPackets + (PacketsSent (store s dev) + PacketsRecv (store s dev)))
            (s\<lparr>store := (store s)(fresh s := store s dev), fresh := Suc (fresh s)\<rparr>))"

text \<open>The comparison function handed to \<open>sort.Slice\<close>, on the pointers of the slice.\<close>

definition less_total :: "(addr \<Rightarrow> DeviceStats) \<Rightarrow> addr \<Rightarrow> addr \<Rightarrow> bool" where
  "less_total st a b =
     (BytesSent (st b) + BytesRecv (st b) < BytesSent (st a) + BytesRecv (st a))"

text \<open>
  \<open>sort.Slice\<close> belongs to Go's standard library, so \<open>GetNetworkStats\<close> takes it as
  the argument \<open>sort_Slice\<close>. Its documented contract, for a comparison that is a
  strict weak ordering: the result is a rearrangement of the slice in which no element
  is less than an element before it. Equal elements may come in any order.
\<close>

definition strict_weak_order :: "('a \<Rightarrow> 'a \<Rightarrow> bool) \<Rightarrow> bool" where
  "strict_weak_order lt \<longleftrightarrow>
     (\<forall>a. \<not> lt a a) \<and>
     (\<forall>a b c. lt a b \<and> lt b c \<longrightarrow> lt a c) \<and>
     (\<forall>a b c. \<not> lt a b \<and> \<not> lt b c \<longrightarrow> \<not> lt a c)"

definition sort_Slice_contract :: "(('a \<Rightarrow> 'a \<Rightarrow> bool) \<Rightarrow> 'a list \<Rightarrow> 'a list) \<Rightarrow> bool" where
  "sort_Slice_contract srt \<longleftrightarrow>
     (\<forall>lt xs. strict_weak_order lt \<longrightarrow>
        mset (srt lt xs) = mset xs \<and> sorted_wrt (\<lambda>a b. \<not> lt b a) (srt lt xs))"

definition GetNetworkStats ::
  "((addr \<Rightarrow> addr \<Rightarrow> bool) \<Rightarrow> addr list \<Rightarrow> addr list) \<Rightarrow> string list \<Rightarrow> time \<Rightarrow> state
     \<Rightarrow> NetworkStats \<times> state" where
  "GetNetworkStats sort_Slice order now s =
     (case range_devices order ([], 0, 0, 0) s of
        ((devs, totalSent, totalRecv, totalPackets), s1) \<Rightarrow>
          (let sorted_devs = sort_Slice (less_total (store s1)) devs
           in (\<lparr>Devices = sorted_devs, TotalSent = totalSent, TotalRecv = totalRecv,
                TotalPackets = totalPackets, ActiveDevices = int (length sorted_devs),
                MonitorDuration = now - startTime s1, Timestamp = now\<rparr>, s1)))"

text \<open>
  An insertion sort that meets the contract of \<open>sort.Slice\<close>; it stands for the
  library routine where a concrete run is evaluated.
\<close>

fun insert_by :: "('a \<Rightarrow> 'a \<Rightarrow> bool) \<Rightarrow> 'a \<Rightarrow> 'a list \<Rightarrow> 'a list" where
  "insert_by lt x [] = [x]"
| "insert_by lt x (y # ys) = (if lt x y then x # y # ys else y # insert_by lt x ys)"

fun insertion_sort :: "('a \<Rightarrow> 'a \<Rightarrow> bool) \<Rightarrow> 'a list \<Rightarrow> 'a list" where
  "insertion_sort lt [] = []"
| "insertion_sort lt (x # xs) = insert_by lt x (insertion_sort lt xs)"

section \<open>Sequences of registry operations\<close>

datatype op =
  Update time string string string string u64
| Snapshot "string list" time

fun step :: "((addr \<Rightarrow> addr \<Rightarrow> bool) \<Rightarrow> addr list \<Rightarrow> addr list) \<Rightarrow> op \<Rightarrow> state \<Rightarrow> state" where
  "step srt (Update now srcMAC dstMAC srcIP dstIP packetSize) s =
     UpdateStats now srcMAC dstMAC srcIP dstIP packetSize s"
| "step srt (Snapshot order now) s = snd (GetNetworkStats srt order now s)"

fun steps :: "((addr \<Rightarrow> addr \<Rightarrow> bool) \<Rightarrow> addr list \<Rightarrow> addr list) \<Rightarrow> op list \<Rightarrow> state \<Rightarrow> state" where
  "steps srt [] s = s"
| "steps srt (c # cs) s = steps srt cs (step srt c s)"

text \<open>The record the registry holds for an identity, read through its pointer.\<close>

definition device_of :: "state \<Rightarrow> string \<rightharpoonup> DeviceStats" where
  "device_of s k = map_option (store s) (devices s k)"

text \<open>
  Well-formed heap: distinct identities are stored under distinct pointers, and every
  pointer of the map was handed out by the allocator.
\<close>

definition wf_state :: "state \<Rightarrow> bool" where
  "wf_state s \<longleftrightarrow>
     inj_on (devices s) (dom (devices s)) \<and> (\<forall>k p. devices s k = Some p \<longrightarrow> p < fresh s)"

text \<open>
  What one operation does to the record of the identity \<open>k\<close>, as a function of that
  record alone (\<open>None\<close>: no record yet). \<open>device_of_step\<close> below proves that the
  operations on the store act on each record exactly so.
\<close>

fun absorb :: "string \<Rightarrow> op \<Rightarrow> DeviceStats option \<Rightarrow> DeviceStats option" where
  "absorb k (Update now srcMAC dstMAC srcIP dstIP packetSize) r =
     (let r1 = (if srcMAC = k \<and> srcMAC \<noteq> '''' \<and> srcMAC \<noteq> broadcastMAC
                then Some (credit_sent now srcIP packetSize
                       (case r of None \<Rightarrow> zero_DeviceStats\<lparr>MAC := k, IP := srcIP\<rparr> | Some d \<Rightarrow> d))
                else r)
      in if dstMAC = k \<and> dstMAC \<noteq> '''' \<and> dstMAC \<noteq> broadcastMAC
         then Some (credit_recv now dstIP packetSize
                (case r1 of None \<Rightarrow> zero_DeviceStats\<lparr>MAC := k, IP := dstIP\<rparr> | Some d \<Rightarrow> d))
         else r1)"
| "absorb k (Snapshot order now) r = r"

section \<open>The calls of a sequence that concern one identity\<close>

text \<open>
  The frame sizes of the calls whose source identity is \<open>k\<close>, non-empty and not the
  broadcast address, in call order; the same for the destination identity.
\<close>

fun sent_sizes :: "string \<Rightarrow> op list \<Rightarrow> u64 list" where
  "sent_sizes k [] = []"
| "sent_sizes k (Update now srcMAC dstMAC srcIP dstIP packetSize # cs) =
     (if srcMAC = k \<and> srcMAC \<noteq> '''' \<and> srcMAC \<noteq> broadcastMAC then [packetSize] else [])
       @ sent_sizes k cs"
| "sent_sizes k (Snapshot order now # cs) = sent_sizes k cs"

fun recv_sizes :: "string \<Rightarrow> op list \<Rightarrow> u64 list" where
  "recv_sizes k [] = []"
| "recv_sizes k (Update now srcMAC dstMAC srcIP dstIP packetSize # cs) =
     (if dstMAC = k \<and> dstMAC \<noteq> '''' \<and> dstMAC \<noteq> broadcastMAC then [packetSize] else [])
       @ recv_sizes k cs"
| "recv_sizes k (Snapshot order now # cs) = recv_sizes k cs"

text \<open>
  The network-layer addresses the calls supply for the identity \<open>k\<close>, in the order
  in which \<open>UpdateStats\<close> looks at them: the source address of a call whose source
  identity is \<open>k\<close>, then the destination address of a call whose destination
  identity is \<open>k\<close>.
\<close>

fun supplied :: "string \<Rightarrow> op list \<Rightarrow> string list" where
  "supplied k [] = []"
| "supplied k (Update now srcMAC dstMAC srcIP dstIP packetSize # cs) =
     (if srcMAC = k then [srcIP] else []) @ (if dstMAC = k then [dstIP] else []) @ supplied k cs"
| "supplied k (Snapshot order now # cs) = supplied k cs"

definition first_nonempty :: "string list \<Rightarrow> string" where
  "first_nonempty xs = (case filter (\<lambda>a. a \<noteq> '''') xs of [] \<Rightarrow> '''' | a # _ \<Rightarrow> a)"

section \<open>The broadcast queue\<close>

text \<open>
  A send on the buffered channel \<open>bm.broadcast\<close> (capacity 256): \<open>None\<close> when the
  buffer is full and the sender would block.
\<close>

definition chan_send :: "NetworkStats list \<Rightarrow> NetworkStats \<Rightarrow> NetworkStats list option" where
  "chan_send q x = (if length q < broadcast_cap then Some (q @ [x]) else None)"

text \<open>
  \<open>select { case monitor.broadcast <- stats: default: }\<close> of the ticker goroutine in
  \<open>main\<close>: the branch taken (\<open>True\<close> for the send) and the state.
\<close>

definition tryPush :: "NetworkStats \<Rightarrow> state \<Rightarrow> bool \<times> state" where
  "tryPush stats s =
     (case chan_send (broadcast s) stats of
        Some q \<Rightarrow> (True, s\<lparr>broadcast := q\<rparr>)
      | None \<Rightarrow> (False, s))"

text \<open>One tick of the ticker goroutine.\<close>

definition tick ::
  "((addr \<Rightarrow> addr \<Rightarrow> bool) \<Rightarrow> addr list \<Rightarrow> addr list) \<Rightarrow> string list \<Rightarrow> time \<Rightarrow> state \<Rightarrow> bool \<times> state" where
  "tick srt order now s =
     (case GetNetworkStats srt order now s of (stats, s1) \<Rightarrow> tryPush stats s1)"

section \<open>broadcastStats\<close>

text \<open>
  The goroutine either finishes the body of its loop or is parked on a lock for good.
\<close>

datatype outcome = Finished state | Parked state

text \<open>
  The inner loop \<open>for client := range bm.clients\<close>, run while the goroutine holds
  the read lock of \<open>clientsMu\<close>. \<open>order\<close> is the order in which the runtime visits
  the keys; a key deleted before it is reached is not visited. \<open>write_fails\<close> tells
  for which connections \<open>WriteJSON\<close> returns an error. On an error the source calls
  \<open>client.Close()\<close> and then \<open>bm.clientsMu.Lock()\<close>.
\<close>

fun deliver :: "(conn \<Rightarrow> bool) \<Rightarrow> NetworkStats \<Rightarrow> conn list \<Rightarrow> state \<Rightarrow> outcome" where
  "deliver write_fails stats [] s = Finished s"
| "deliver write_fails stats (client # rest) s =
     (if client \<in> clients s then
        (if write_fails client then
           (let s1 = s\<lparr>closed := insert client (closed s)\<rparr>
            in case Lock (clientsMu s1) of
                 None \<Rightarrow> Parked s1
               | Some m \<Rightarrow>
                   deliver write_fails stats rest
                     (s1\<lparr>clients := clients s1 - {client}, clientsMu := Unlock m\<rparr>))
         else
           deliver write_fails stats rest
             (s\<lparr>delivered := (delivered s)(client := delivered s client @ [stats])\<rparr>))
      else deliver write_fails stats rest s)"

text \<open>The body of \<open>for stats := range bm.broadcast\<close> for one received snapshot.\<close>

definition broadcast_one :: "(conn \<Rightarrow> bool) \<Rightarrow> conn list \<Rightarrow> NetworkStats \<Rightarrow> state \<Rightarrow> outcome" where
  "broadcast_one write_fails order stats s =
     (case RLock (clientsMu s) of
        None \<Rightarrow> Parked s
      | Some m \<Rightarrow>
          (case deliver write_fails stats order (s\<lparr>clientsMu := m\<rparr>) of
             Finished s1 \<Rightarrow> Finished (s1\<lparr>clientsMu := RUnlock (clientsMu s1)\<rparr>)
           | Parked s1 \<Rightarrow> Parked s1))"

section \<open>handleGetDevice\<close>

text \<open>
  The handler answers 404 with the text "Device not found", or 200 with the JSON
  encoding of a record; the encoding is represented by the record it encodes.
\<close>

datatype response = NotFound | Json DeviceStats

text \<open>
  Lines 214 to 216: the map is read while the read lock is held; the result is the
  registry's own pointer (\<open>None\<close> when \<open>exists\<close> is false).
\<close>

definition handleGetDevice_lookup :: "string \<Rightarrow> state \<Rightarrow> addr option" where
  "handleGetDevice_lookup mac s = devices s mac"

text \<open>
  Lines 218 to 224, after \<open>RUnlock\<close>: the answer is built by reading the record
  through the pointer, in the state the store has by then.
\<close>

definition handleGetDevice_respond :: "addr option \<Rightarrow> state \<Rightarrow> response" where
  "handleGetDevice_respond looked_up s =
     (case looked_up of None \<Rightarrow> NotFound | Some device \<Rightarrow> Json (store s device))"

text \<open>The handler when no other goroutine runs between its two parts.\<close>

definition handleGetDevice :: "string \<Rightarrow> state \<Rightarrow> response" where
  "handleGetDevice mac s = handleGetDevice_respond (handleGetDevice_lookup mac s) s"

section \<open>A concrete run\<close>

text \<open>
  Three frames: A to B with 64 bytes, B to A with 1500 bytes, A to the broadcast
  address with 128 bytes.
\<close>

definition macA :: string where
  "macA = ''aa:aa:aa:aa:aa:aa''"

definition macB :: string where
  "macB = ''bb:bb:bb:bb:bb:bb''"

definition scenario_A :: "op list" where
  "scenario_A =
     [Update 1 macA macB ''10.0.0.1'' ''10.0.0.2'' 64,
      Update 2 macB macA ''10.0.0.2'' ''10.0.0.1'' 1500,
      Update 3 macA broadcastMAC ''10.0.0.1'' ''10.0.0.255'' 128]"

text \<open>
  A frame without a network-layer header, then two frames that carry different
  source addresses for the same identity.
\<close>

definition scenario_addr :: "op list" where
  "scenario_addr =
     [Update 1 macA macB '''' '''' 60,
      Update 2 macA macB ''10.0.0.1'' ''10.0.0.2'' 64,
      Update 3 macA macB ''10.0.0.9'' ''10.0.0.2'' 64]"

text \<open>A further frame from A to B, captured after a snapshot was taken.\<close>

definition later_frame :: "op list" where
  "later_frame = [Update 9 macA macB ''10.0.0.1'' ''10.0.0.2'' 1000]"

text \<open>
  Two subscribers, 1 and 2, are connected; the write to subscriber 1 fails. The
  snapshot that is broadcast lists no device.
\<close>

definition two_subscribers :: state where
  "two_subscribers = (NewBandwidthMonitor ''192.168.1.5'' 0)\<lparr>clients := {1, 2}\<rparr>"

definition write_to_1_fails :: "conn \<Rightarrow> bool" where
  "write_to_1_fails c = (c = 1)"

definition empty_snapshot :: NetworkStats where
  "empty_snapshot = \<lparr>Devices = [], TotalSent = 0, TotalRecv = 0, TotalPackets = 0,
     ActiveDevices = 0, MonitorDuration = 5, Timestamp = 5\<rparr>"

text \<open>A queue that holds 256 snapshots.\<close>

definition full_queue :: state where
  "full_queue = (NewBandwidthMonitor ''192.168.1.5'' 0)\<lparr>broadcast := replicate 256 empty_snapshot\<rparr>"

text \<open>The registry after the first frame of the run above.\<close>

definition one_frame :: state where
  "one_frame = steps insertion_sort (take 1 scenario_A) (NewBandwidthMonitor ''192.168.1.5'' 0)"

text \<open>
  Runs in which every counter is in range but a derived \<open>uint64\<close> sum wraps: two
  devices that each sent \<open>2 ^ 63\<close> bytes; and a device that sent \<open>2 ^ 64 - 1\<close> bytes
  and received 2, beside a device that sent 100 bytes.
\<close>

definition scenario_total_wraps :: "op list" where
  "scenario_total_wraps =
     [Update 1 macA '''' '''' '''' 9223372036854775808,
      Update 2 macB '''' '''' '''' 9223372036854775808]"

definition scenario_order_wraps :: "op list" where
  "scenario_order_wraps =
     [Update 1 macA '''' '''' '''' 18446744073709551615,
      Update 2 '''' macA '''' '''' 2,
      Update 3 macB '''' '''' '''' 100]"


section \<open>Well-formedness of the store\<close>

lemma wfs_New: "wf_state (NewBandwidthMonitor lip t0)"
  by (simp add: wf_state_def NewBandwidthMonitor_def)

lemma wfs_distinct: "wf_state s \<Longrightarrow> devices s k = Some p \<Longrightarrow> devices s k' = Some p \<Longrightarrow> k = k'"
  by (auto simp: wf_state_def inj_on_def dom_def)

lemma wfs_lt: "wf_state s \<Longrightarrow> devices s k = Some p \<Longrightarrow> p < fresh s"
  by (simp add: wf_state_def)

lemma wfs_not_fresh: "wf_state s \<Longrightarrow> devices s k \<noteq> Some (fresh s)"
  by (auto dest: wfs_lt)

lemma wf_stateI:
  "(\<And>k k' p. devices s k = Some p \<Longrightarrow> devices s k' = Some p \<Longrightarrow> k = k') \<Longrightarrow>
   (\<And>k p. devices s k = Some p \<Longrightarrow> p < fresh s) \<Longrightarrow> wf_state s"
  unfolding wf_state_def inj_on_def dom_def by auto

lemma wfs_store_upd: "wf_state (s\<lparr>store := f\<rparr>) = wf_state s"
  by (simp add: wf_state_def)

lemma wfs_obtain:
  assumes "wf_state s" "obtain_device key ip s = (p, s1)"
  shows "wf_state s1 \<and> devices s1 key = Some p"
proof (cases "devices s key")
  case None
  then have s1: "s1 = s\<lparr>devices := (devices s)(key \<mapsto> fresh s),
             store := (store s)(fresh s := zero_DeviceStats\<lparr>MAC := key, IP := ip\<rparr>),
             fresh := Suc (fresh s)\<rparr>" and p: "p = fresh s"
    using assms(2) by (auto simp: obtain_device_def)
  have "wf_state s1"
  proof (rule wf_stateI)
    fix k k' q assume "devices s1 k = Some q" "devices s1 k' = Some q"
    then show "k = k'"
      using wfs_distinct[OF assms(1), of k q k'] wfs_not_fresh[OF assms(1)]
      by (auto simp: s1 split: if_splits)
  next
    fix k q assume "devices s1 k = Some q"
    then show "q < fresh s1"
      using wfs_lt[OF assms(1), of k q] by (auto simp: s1 split: if_splits)
  qed
  then show ?thesis by (simp add: s1 p)
next
  case (Some q)
  then show ?thesis using assms by (auto simp: obtain_device_def)
qed

lemma device_of_obtain:
  assumes "wf_state s" "obtain_device key ip s = (p, s1)"
  shows "device_of s1 = (device_of s)(key \<mapsto>
           (case device_of s key of None \<Rightarrow> zero_DeviceStats\<lparr>MAC := key, IP := ip\<rparr> | Some d \<Rightarrow> d))"
proof (rule ext)
  fix x
  show "device_of s1 x = ((device_of s)(key \<mapsto>
           (case device_of s key of None \<Rightarrow> zero_DeviceStats\<lparr>MAC := key, IP := ip\<rparr> | Some d \<Rightarrow> d))) x"
    using assms(2) wfs_not_fresh[OF assms(1), of x]
    by (cases "devices s x") (auto simp: obtain_device_def device_of_def split: option.splits)
qed

lemma device_of_store_upd:
  assumes "wf_state s" "devices s key = Some p"
  shows "device_of (s\<lparr>store := (store s)(p := d)\<rparr>) = (device_of s)(key \<mapsto> d)"
proof (rule ext)
  fix x
  show "device_of (s\<lparr>store := (store s)(p := d)\<rparr>) x = ((device_of s)(key \<mapsto> d)) x"
    using assms(2) wfs_distinct[OF assms(1), of x p key]
    by (cases "devices s x") (auto simp: device_of_def)
qed

lemma wfs_UpdateStats_src: "wf_state s \<Longrightarrow> wf_state (UpdateStats_src now m ip sz s)"
  by (auto simp: UpdateStats_src_def wfs_store_upd split: prod.splits dest: wfs_obtain)

lemma wfs_UpdateStats_dst: "wf_state s \<Longrightarrow> wf_state (UpdateStats_dst now m ip sz s)"
  by (auto simp: UpdateStats_dst_def wfs_store_upd split: prod.splits dest: wfs_obtain)

lemma wfs_UpdateStats: "wf_state s \<Longrightarrow> wf_state (UpdateStats now sm dm si di sz s)"
  by (simp add: UpdateStats_def wfs_UpdateStats_src wfs_UpdateStats_dst)

lemma device_of_UpdateStats_src:
  assumes "wf_state s"
  shows "device_of (UpdateStats_src now m ip sz s) =
    (if m \<noteq> '''' \<and> m \<noteq> broadcastMAC
     then (device_of s)(m \<mapsto> credit_sent now ip sz
            (case device_of s m of None \<Rightarrow> zero_DeviceStats\<lparr>MAC := m, IP := ip\<rparr> | Some d \<Rightarrow> d))
     else device_of s)"
proof (cases "m \<noteq> '''' \<and> m \<noteq> broadcastMAC")
  case True
  obtain p s1 where o: "obtain_device m ip s = (p, s1)"
    by (cases "obtain_device m ip s")
  have w1: "wf_state s1" and d1: "devices s1 m = Some p"
    using wfs_obtain[OF assms o] by auto
  have v1: "device_of s1 = (device_of s)(m \<mapsto>
      (case device_of s m of None \<Rightarrow> zero_DeviceStats\<lparr>MAC := m, IP := ip\<rparr> | Some d \<Rightarrow> d))"
    by (rule device_of_obtain[OF assms o])
  have "device_of s1 m = Some (store s1 p)"
    by (simp add: device_of_def d1)
  then have "store s1 p =
      (case device_of s m of None \<Rightarrow> zero_DeviceStats\<lparr>MAC := m, IP := ip\<rparr> | Some d \<Rightarrow> d)"
    by (simp add: v1)
  then show ?thesis
    using True o by (simp add: UpdateStats_src_def device_of_store_upd[OF w1 d1] v1)
next
  case False
  then show ?thesis by (auto simp: UpdateStats_src_def)
qed

lemma device_of_UpdateStats_dst:
  assumes "wf_state s"
  shows "device_of (UpdateStats_dst now m ip sz s) =
    (if m \<noteq> '''' \<and> m \<noteq> broadcastMAC
     then (device_of s)(m \<mapsto> credit_recv now ip sz
            (case device_of s m of None \<Rightarrow> zero_DeviceStats\<lparr>MAC := m, IP := ip\<rparr> | Some d \<Rightarrow> d))
     else device_of s)"
proof (cases "m \<noteq> '''' \<and> m \<noteq> broadcastMAC")
  case True
  obtain p s1 where o: "obtain_device m ip s = (p, s1)"
    by (cases "obtain_device m ip s")
  have w1: "wf_state s1" and d1: "devices s1 m = Some p"
    using wfs_obtain[OF assms o] by auto
  have v1: "device_of s1 = (device_of s)(m \<mapsto>
      (case device_of s m of None \<Rightarrow> zero_DeviceStats\<lparr>MAC := m, IP := ip\<rparr> | Some d \<Rightarrow> d))"
    by (rule device_of_obtain[OF assms o])
  have "device_of s1 m = Some (store s1 p)"
    by (simp add: device_of_def d1)
  then have "store s1 p =
      (case device_of s m of None \<Rightarrow> zero_DeviceStats\<lparr>MAC := m, IP := ip\<rparr> | Some d \<Rightarrow> d)"
    by (simp add: v1)
  then show ?thesis
    using True o by (simp add: UpdateStats_dst_def device_of_store_upd[OF w1 d1] v1)
next
  case False
  then show ?thesis by (auto simp: UpdateStats_dst_def)
qed

section \<open>The range loop of GetNetworkStats\<close>

lemma range_devices_frame:
  "range_devices order acc s = (acc', s1) \<Longrightarrow>
     devices s1 = devices s \<and> fresh s \<le> fresh s1 \<and> (\<forall>p. p < fresh s \<longrightarrow> store s1 p = store s p) \<and>
     localIP s1 = localIP s \<and> startTime s1 = startTime s \<and> clients s1 = clients s \<and>
     clientsMu s1 = clientsMu s \<and> broadcast s1 = broadcast s \<and> delivered s1 = delivered s \<and>
     closed s1 = closed s"
proof (induction order acc s rule: range_devices.induct)
  case (1 acc s)
  then show ?case by simp
next
  case (2 k ks devs totalSent totalRecv totalPackets s)
  show ?case
  proof (cases "devices s k")
    case None
    then show ?thesis using 2 by simp
  next
    case (Some dev)
    let ?s2 = "s\<lparr>store := (store s)(fresh s := store s dev), fresh := Suc (fresh s)\<rparr>"
    from "2.prems" Some have
      "range_devices ks (devs @ [fresh s], totalSent + BytesSent (store s dev),
          totalRecv + BytesRecv (store s dev),
          totalPackets + (PacketsSent (store s dev) + PacketsRecv (store s dev))) ?s2 = (acc', s1)"
      by simp
    from "2.IH"(2)[OF Some this] show ?thesis by auto
  qed
qed

lemma wfs_range_devices:
  assumes "wf_state s" "range_devices order acc s = (acc', s1)"
  shows "wf_state s1"
proof -
  from range_devices_frame[OF assms(2)] have "devices s1 = devices s" "fresh s \<le> fresh s1"
    by auto
  with assms(1) show ?thesis
    unfolding wf_state_def by (metis order_less_le_trans)
qed

lemma device_of_range_devices:
  assumes "wf_state s" "range_devices order acc s = (acc', s1)"
  shows "device_of s1 = device_of s"
proof (rule ext)
  fix k
  from range_devices_frame[OF assms(2)]
  have d: "devices s1 = devices s" and st: "\<forall>p. p < fresh s \<longrightarrow> store s1 p = store s p"
    by auto
  show "device_of s1 k = device_of s k"
    using wfs_lt[OF assms(1), of k] st by (cases "devices s k") (auto simp: device_of_def d)
qed

lemma snd_GetNetworkStats:
  "snd (GetNetworkStats srt order now s) = snd (range_devices order ([], 0, 0, 0) s)"
  by (simp add: GetNetworkStats_def Let_def split: prod.splits)

lemma wfs_step: "wf_state s \<Longrightarrow> wf_state (step srt c s)"
proof (cases c)
  case (Update now sm dm si di sz)
  assume "wf_state s"
  then show ?thesis by (simp add: Update wfs_UpdateStats)
next
  case (Snapshot order now)
  assume w: "wf_state s"
  obtain acc' s1 where r: "range_devices order ([], 0, 0, 0) s = (acc', s1)"
    by (cases "range_devices order ([], 0, 0, 0) s")
  show ?thesis using wfs_range_devices[OF w r] by (simp add: Snapshot snd_GetNetworkStats r)
qed

lemma wfs_steps: "wf_state s \<Longrightarrow> wf_state (steps srt cs s)"
  by (induction cs arbitrary: s) (simp_all add: wfs_step)

lemma wfs_reachable: "wf_state (steps srt cs (NewBandwidthMonitor lip t0))"
  by (rule wfs_steps[OF wfs_New])

section \<open>Each record is changed as absorb says\<close>

lemma device_of_step:
  assumes "wf_state s"
  shows "device_of (step srt c s) k = absorb k c (device_of s k)"
proof (cases c)
  case (Update now sm dm si di sz)
  have w1: "wf_state (UpdateStats_src now sm si sz s)"
    by (rule wfs_UpdateStats_src[OF assms])
  show ?thesis
    by (auto simp: Update UpdateStats_def device_of_UpdateStats_dst[OF w1]
        device_of_UpdateStats_src[OF assms] Let_def)
next
  case (Snapshot order now)
  obtain acc' s1 where r: "range_devices order ([], 0, 0, 0) s = (acc', s1)"
    by (cases "range_devices order ([], 0, 0, 0) s")
  show ?thesis
    using device_of_range_devices[OF assms r] by (simp add: Snapshot snd_GetNetworkStats r)
qed

lemma device_of_steps:
  "wf_state s \<Longrightarrow> device_of (steps srt cs s) k = fold (absorb k) cs (device_of s k)"
  by (induction cs arbitrary: s) (simp_all add: wfs_step device_of_step)

lemma device_of_New: "device_of (NewBandwidthMonitor lip t0) k = None"
  by (simp add: device_of_def NewBandwidthMonitor_def)

lemma device_of_reachable:
  "device_of (steps srt cs (NewBandwidthMonitor lip t0)) k = fold (absorb k) cs None"
  by (simp add: device_of_steps[OF wfs_New] device_of_New)


section \<open>Field effects of the two blocks\<close>

lemma credit_sent_fields:
  "BytesSent (credit_sent now ip sz d) = BytesSent d + sz"
  "PacketsSent (credit_sent now ip sz d) = PacketsSent d + 1"
  "BytesRecv (credit_sent now ip sz d) = BytesRecv d"
  "PacketsRecv (credit_sent now ip sz d) = PacketsRecv d"
  "MAC (credit_sent now ip sz d) = MAC d"
  "Hostname (credit_sent now ip sz d) = Hostname d"
  "LastSeen (credit_sent now ip sz d) = now"
  "IP (credit_sent now ip sz d) = (if IP d = '''' then ip else IP d)"
  by (simp_all add: credit_sent_def add_bytes_sent_def Let_def)

lemma credit_recv_fields:
  "BytesRecv (credit_recv now ip sz d) = BytesRecv d + sz"
  "PacketsRecv (credit_recv now ip sz d) = PacketsRecv d + 1"
  "BytesSent (credit_recv now ip sz d) = BytesSent d"
  "PacketsSent (credit_recv now ip sz d) = PacketsSent d"
  "MAC (credit_recv now ip sz d) = MAC d"
  "Hostname (credit_recv now ip sz d) = Hostname d"
  "LastSeen (credit_recv now ip sz d) = now"
  "IP (credit_recv now ip sz d) = (if IP d = '''' then ip else IP d)"
  by (simp_all add: credit_recv_def Let_def)

lemma zero_DeviceStats_fields:
  "BytesSent (zero_DeviceStats\<lparr>MAC := k, IP := ip\<rparr>) = 0"
  "PacketsSent (zero_DeviceStats\<lparr>MAC := k, IP := ip\<rparr>) = 0"
  "BytesRecv (zero_DeviceStats\<lparr>MAC := k, IP := ip\<rparr>) = 0"
  "PacketsRecv (zero_DeviceStats\<lparr>MAC := k, IP := ip\<rparr>) = 0"
  "MAC (zero_DeviceStats\<lparr>MAC := k, IP := ip\<rparr>) = k"
  "IP (zero_DeviceStats\<lparr>MAC := k, IP := ip\<rparr>) = ip"
  "Hostname (zero_DeviceStats\<lparr>MAC := k, IP := ip\<rparr>) = ''''"
  "Hostname zero_DeviceStats = ''''"
  by (simp_all add: zero_DeviceStats_def)

section \<open>Counters of one identity over a sequence\<close>

lemma fold_absorb_None:
  "fold (absorb k) cs r = None \<longleftrightarrow> r = None \<and> sent_sizes k cs = [] \<and> recv_sizes k cs = []"
proof (induction cs arbitrary: r)
  case Nil
  show ?case by simp
next
  case (Cons c cs)
  show ?case
    by (cases c) (auto simp: Cons.IH Let_def)
qed

lemma fold_absorb_counters:
  "fold (absorb k) cs r = Some d \<Longrightarrow>
     BytesSent d = (case r of None \<Rightarrow> 0 | Some d0 \<Rightarrow> BytesSent d0) + sum_list (sent_sizes k cs) \<and>
     PacketsSent d = (case r of None \<Rightarrow> 0 | Some d0 \<Rightarrow> PacketsSent d0) + of_nat (length (sent_sizes k cs)) \<and>
     BytesRecv d = (case r of None \<Rightarrow> 0 | Some d0 \<Rightarrow> BytesRecv d0) + sum_list (recv_sizes k cs) \<and>
     PacketsRecv d = (case r of None \<Rightarrow> 0 | Some d0 \<Rightarrow> PacketsRecv d0) + of_nat (length (recv_sizes k cs))"
proof (induction cs arbitrary: r)
  case Nil
  then show ?case by simp
next
  case (Cons c cs)
  from Cons.prems have f: "fold (absorb k) cs (absorb k c r) = Some d" by simp
  note ih = Cons.IH[OF f]
  show ?case
  proof (cases c)
    case (Update now sm dm si di sz)
    show ?thesis
      using ih unfolding Update
      by (cases r) (auto simp: Let_def credit_sent_fields credit_recv_fields zero_DeviceStats_fields)
  next
    case (Snapshot order now)
    show ?thesis using ih by (simp add: Snapshot)
  qed
qed

section \<open>The address of one identity over a sequence\<close>

lemma first_nonempty_Nil: "first_nonempty [] = ''''"
  by (simp add: first_nonempty_def)

lemma first_nonempty_Cons: "first_nonempty (x # xs) = (if x = '''' then first_nonempty xs else x)"
  by (simp add: first_nonempty_def)

lemma fold_absorb_IP:
  "k \<noteq> '''' \<Longrightarrow> k \<noteq> broadcastMAC \<Longrightarrow> fold (absorb k) cs r = Some d \<Longrightarrow>
     IP d = first_nonempty ((case r of None \<Rightarrow> [] | Some d0 \<Rightarrow> [IP d0]) @ supplied k cs)"
proof (induction cs arbitrary: r)
  case Nil
  then show ?case by (simp add: first_nonempty_Cons first_nonempty_Nil)
next
  case (Cons c cs)
  from Cons.prems have f: "fold (absorb k) cs (absorb k c r) = Some d" by simp
  note ih = Cons.IH[OF Cons.prems(1,2) f]
  show ?case
  proof (cases c)
    case (Update now sm dm si di sz)
    show ?thesis
      using ih Cons.prems(1,2) unfolding Update
      by (cases r) (auto simp: Let_def credit_sent_fields credit_recv_fields zero_DeviceStats_fields
          first_nonempty_Cons first_nonempty_Nil)
  next
    case (Snapshot order now)
    show ?thesis using ih by (simp add: Snapshot)
  qed
qed

lemma fold_absorb_valid:
  "fold (absorb k) cs None = Some d \<Longrightarrow> k \<noteq> '''' \<and> k \<noteq> broadcastMAC"
proof -
  assume a: "fold (absorb k) cs None = Some d"
  have "sent_sizes k cs = [] \<and> recv_sizes k cs = []" if "k = '''' \<or> k = broadcastMAC"
    using that by (induction cs rule: sent_sizes.induct) auto
  with a fold_absorb_None[of k cs None] show ?thesis by auto
qed

lemma fold_absorb_MAC_Hostname:
  "fold (absorb k) cs r = Some d \<Longrightarrow>
     MAC d = (case r of None \<Rightarrow> k | Some d0 \<Rightarrow> MAC d0) \<and>
     Hostname d = (case r of None \<Rightarrow> '''' | Some d0 \<Rightarrow> Hostname d0)"
proof (induction cs arbitrary: r)
  case Nil
  then show ?case by simp
next
  case (Cons c cs)
  from Cons.prems have f: "fold (absorb k) cs (absorb k c r) = Some d" by simp
  note ih = Cons.IH[OF f]
  show ?case
  proof (cases c)
    case (Update now sm dm si di sz)
    show ?thesis
      using ih unfolding Update
      by (cases r) (auto simp: Let_def credit_sent_fields credit_recv_fields zero_DeviceStats_fields)
  next
    case (Snapshot order now)
    show ?thesis using ih by (simp add: Snapshot)
  qed
qed
lemmas run_defs = NewBandwidthMonitor_def UpdateStats_def UpdateStats_src_def UpdateStats_dst_def
  obtain_device_def credit_sent_def add_bytes_sent_def credit_recv_def broadcastMAC_def zero_DeviceStats_def
  device_of_def macA_def macB_def

lemma sum_list_u64_unat:
  "unat (sum_list (xs :: u64 list)) = sum_list (map unat xs) mod 2 ^ 64"
proof (induction xs)
  case Nil
  show ?case by simp
next
  case (Cons x xs)
  have "unat (x + sum_list xs) = (unat x + unat (sum_list xs)) mod 2 ^ 64"
    by (simp add: unat_word_ariths)
  also have "\<dots> = (unat x + sum_list (map unat xs)) mod 2 ^ 64"
    by (simp add: Cons.IH mod_add_right_eq)
  finally show ?case by simp
qed

section \<open>The claims about UpdateStats\<close>




lemma devices_None_iff: "devices s k = None \<longleftrightarrow> device_of s k = None"
  by (simp add: device_of_def)

lemma sizes_invalid:
  "k = '''' \<or> k = broadcastMAC \<Longrightarrow> sent_sizes k cs = [] \<and> recv_sizes k cs = []"
  by (induction k cs rule: sent_sizes.induct) auto

lemma sizes_broadcast: "sent_sizes broadcastMAC cs = [] \<and> recv_sizes broadcastMAC cs = []"
  by (simp add: sizes_invalid)

lemma steps_append: "steps srt (xs @ ys) s = steps srt ys (steps srt xs s)"
  by (induction xs arbitrary: s) simp_all

text \<open>
  C3. After any finite sequence of calls the broadcast address is not a key of the
  registry, and the block of \<open>UpdateStats\<close> for a side whose identity is the
  broadcast address leaves the whole state as it was: the call then does exactly what
  the block for the other side does.
\<close>

theorem broadcast_address_never_registered:
  "devices (steps srt cs (NewBandwidthMonitor lip t0)) broadcastMAC = None \<and>
   UpdateStats_src now broadcastMAC srcIP packetSize s = s \<and>
   UpdateStats_dst now broadcastMAC dstIP packetSize s = s \<and>
   UpdateStats now broadcastMAC dstMAC srcIP dstIP packetSize s
     = UpdateStats_dst now dstMAC dstIP packetSize s \<and>
   UpdateStats now srcMAC broadcastMAC srcIP dstIP packetSize s
     = UpdateStats_src now srcMAC srcIP packetSize s"
proof -
  have "device_of (steps srt cs (NewBandwidthMonitor lip t0)) broadcastMAC = None"
    by (simp add: device_of_reachable fold_absorb_None sizes_broadcast)
  then have "devices (steps srt cs (NewBandwidthMonitor lip t0)) broadcastMAC = None"
    by (simp add: devices_None_iff)
  then show ?thesis
    by (simp add: UpdateStats_def UpdateStats_src_def UpdateStats_dst_def)
qed

lemma first_nonempty_append:
  "first_nonempty (xs @ ys) = (if first_nonempty xs = '''' then first_nonempty ys else first_nonempty xs)"
  by (induction xs) (simp_all add: first_nonempty_Nil first_nonempty_Cons)

text \<open>
  C6. The address of a record is the first non-empty address that the calls so far
  supplied for its identity (empty when there was none); once it is non-empty no later
  sequence of calls changes it; and a call that supplies only an empty address for the
  identity leaves it as it is.
\<close>

theorem address_first_nonempty_wins:
  "\<forall>d. device_of (steps srt cs (NewBandwidthMonitor lip t0)) k = Some d \<longrightarrow>
     IP d = first_nonempty (supplied k cs) \<and>
     (\<forall>more d'. device_of (steps srt (cs @ more) (NewBandwidthMonitor lip t0)) k = Some d' \<longrightarrow>
        IP d \<noteq> '''' \<longrightarrow> IP d' = IP d) \<and>
     (\<forall>now srcMAC dstMAC srcIP dstIP packetSize d'.
        device_of (steps srt (cs @ [Update now srcMAC dstMAC srcIP dstIP packetSize])
          (NewBandwidthMonitor lip t0)) k = Some d' \<longrightarrow>
        (srcMAC = k \<longrightarrow> srcIP = '''') \<longrightarrow> (dstMAC = k \<longrightarrow> dstIP = '''') \<longrightarrow> IP d' = IP d)"
proof (intro allI impI)
  fix d
  assume "device_of (steps srt cs (NewBandwidthMonitor lip t0)) k = Some d"
  then have f: "fold (absorb k) cs None = Some d"
    by (simp add: device_of_reachable)
  have v: "k \<noteq> ''''" "k \<noteq> broadcastMAC"
    using fold_absorb_valid[OF f] by auto
  have later: "IP d' = first_nonempty ([IP d] @ supplied k more)"
    if "device_of (steps srt (cs @ more) (NewBandwidthMonitor lip t0)) k = Some d'" for more d'
  proof -
    from that have "fold (absorb k) more (Some d) = Some d'"
      by (simp add: device_of_reachable f)
    from fold_absorb_IP[OF v this] show ?thesis by simp
  qed
  have a: "IP d = first_nonempty (supplied k cs)"
    using fold_absorb_IP[OF v f] by simp
  have b: "\<forall>more d'. device_of (steps srt (cs @ more) (NewBandwidthMonitor lip t0)) k = Some d' \<longrightarrow>
        IP d \<noteq> '''' \<longrightarrow> IP d' = IP d"
    using later by (simp add: first_nonempty_Cons)
  have c: "\<forall>now srcMAC dstMAC srcIP dstIP packetSize d'.
        device_of (steps srt (cs @ [Update now srcMAC dstMAC srcIP dstIP packetSize])
          (NewBandwidthMonitor lip t0)) k = Some d' \<longrightarrow>
        (srcMAC = k \<longrightarrow> srcIP = '''') \<longrightarrow> (dstMAC = k \<longrightarrow> dstIP = '''') \<longrightarrow> IP d' = IP d"
  proof (intro allI impI)
    fix now srcMAC dstMAC srcIP dstIP packetSize d'
    assume 1: "device_of (steps srt (cs @ [Update now srcMAC dstMAC srcIP dstIP packetSize])
          (NewBandwidthMonitor lip t0)) k = Some d'"
      and 2: "srcMAC = k \<longrightarrow> srcIP = ''''" and 3: "dstMAC = k \<longrightarrow> dstIP = ''''"
    from later[OF 1] 2 3 show "IP d' = IP d"
      by (auto simp: first_nonempty_Cons first_nonempty_Nil)
  qed
  from a b c show "IP d = first_nonempty (supplied k cs) \<and>
     (\<forall>more d'. device_of (steps srt (cs @ more) (NewBandwidthMonitor lip t0)) k = Some d' \<longrightarrow>
        IP d \<noteq> '''' \<longrightarrow> IP d' = IP d) \<and>
     (\<forall>now srcMAC dstMAC srcIP dstIP packetSize d'.
        device_of (steps srt (cs @ [Update now srcMAC dstMAC srcIP dstIP packetSize])
          (NewBandwidthMonitor lip t0)) k = Some d' \<longrightarrow>
        (srcMAC = k \<longrightarrow> srcIP = '''') \<longrightarrow> (dstMAC = k \<longrightarrow> dstIP = '''') \<longrightarrow> IP d' = IP d)"
    by blast
qed

theorem address_first_nonempty_wins_witness:
  "device_of (steps insertion_sort (take 1 scenario_addr) (NewBandwidthMonitor ''192.168.1.5'' 0)) macA
     = Some \<lparr>MAC = macA, IP = '''', BytesSent = 60, BytesRecv = 0,
             PacketsSent = 1, PacketsRecv = 0, LastSeen = 1, Hostname = ''''\<rparr> \<and>
   device_of (steps insertion_sort (take 2 scenario_addr) (NewBandwidthMonitor ''192.168.1.5'' 0)) macA
     = Some \<lparr>MAC = macA, IP = ''10.0.0.1'', BytesSent = 124, BytesRecv = 0,
             PacketsSent = 2, PacketsRecv = 0, LastSeen = 2, Hostname = ''''\<rparr> \<and>
   device_of (steps insertion_sort scenario_addr (NewBandwidthMonitor ''192.168.1.5'' 0)) macA
     = Some \<lparr>MAC = macA, IP = ''10.0.0.1'', BytesSent = 188, BytesRecv = 0,
             PacketsSent = 3, PacketsRecv = 0, LastSeen = 3, Hostname = ''''\<rparr> \<and>
   first_nonempty (supplied macA scenario_addr) = ''10.0.0.1''"
proof -
  have d: "device_of (steps insertion_sort scenario_addr (NewBandwidthMonitor ''192.168.1.5'' 0)) macA
     = Some \<lparr>MAC = macA, IP = ''10.0.0.1'', BytesSent = 188, BytesRecv = 0,
             PacketsSent = 3, PacketsRecv = 0, LastSeen = 3, Hostname = ''''\<rparr>"
    by (simp add: scenario_addr_def run_defs)
  have d1: "device_of (steps insertion_sort (take 1 scenario_addr) (NewBandwidthMonitor ''192.168.1.5'' 0)) macA
     = Some \<lparr>MAC = macA, IP = '''', BytesSent = 60, BytesRecv = 0,
             PacketsSent = 1, PacketsRecv = 0, LastSeen = 1, Hostname = ''''\<rparr>"
    by (simp add: scenario_addr_def run_defs)
  have d2: "device_of (steps insertion_sort (take 2 scenario_addr) (NewBandwidthMonitor ''192.168.1.5'' 0)) macA
     = Some \<lparr>MAC = macA, IP = ''10.0.0.1'', BytesSent = 124, BytesRecv = 0,
             PacketsSent = 2, PacketsRecv = 0, LastSeen = 2, Hostname = ''''\<rparr>"
    by (simp add: scenario_addr_def run_defs)
  from address_first_nonempty_wins[of insertion_sort scenario_addr "''192.168.1.5''" 0 macA] d d1 d2
  show ?thesis by simp
qed

section \<open>Hostname\<close>

lemma hostname_obtain:
  "\<forall>p. Hostname (store s p) = '''' \<Longrightarrow> obtain_device key ip s = (q, s1) \<Longrightarrow>
     \<forall>p. Hostname (store s1 p) = ''''"
  by (auto simp: obtain_device_def zero_DeviceStats_fields split: option.splits)

lemma hostname_UpdateStats_src:
  "\<forall>p. Hostname (store s p) = '''' \<Longrightarrow> \<forall>p. Hostname (store (UpdateStats_src now m ip sz s) p) = ''''"
  by (auto simp: UpdateStats_src_def credit_sent_fields split: prod.splits dest: hostname_obtain)

lemma hostname_UpdateStats_dst:
  "\<forall>p. Hostname (store s p) = '''' \<Longrightarrow> \<forall>p. Hostname (store (UpdateStats_dst now m ip sz s) p) = ''''"
  by (auto simp: UpdateStats_dst_def credit_recv_fields split: prod.splits dest: hostname_obtain)

lemma hostname_range_devices:
  "\<forall>p. Hostname (store s p) = '''' \<Longrightarrow> range_devices order acc s = (acc', s1) \<Longrightarrow>
     \<forall>p. Hostname (store s1 p) = ''''"
proof (induction order acc s rule: range_devices.induct)
  case (1 acc s)
  then show ?case by simp
next
  case (2 k ks devs totalSent totalRecv totalPackets s)
  show ?case
  proof (cases "devices s k")
    case None
    then show ?thesis using 2 by simp
  next
    case (Some dev)
    let ?s2 = "s\<lparr>store := (store s)(fresh s := store s dev), fresh := Suc (fresh s)\<rparr>"
    have h2: "\<forall>p. Hostname (store ?s2 p) = ''''"
      using "2.prems"(1) by simp
    from "2.prems"(2) Some have
      "range_devices ks (devs @ [fresh s], totalSent + BytesSent (store s dev),
          totalRecv + BytesRecv (store s dev),
          totalPackets + (PacketsSent (store s dev) + PacketsRecv (store s dev))) ?s2 = (acc', s1)"
      by simp
    from "2.IH"(2)[OF Some h2 this] show ?thesis .
  qed
qed

lemma hostname_step:
  assumes "\<forall>p. Hostname (store s p) = ''''"
  shows "\<forall>p. Hostname (store (step srt c s) p) = ''''"
proof (cases c)
  case (Update now sm dm si di sz)
  show ?thesis
    using hostname_UpdateStats_dst[OF hostname_UpdateStats_src[OF assms]]
    by (simp add: Update UpdateStats_def)
next
  case (Snapshot order now)
  obtain acc' s1 where r: "range_devices order ([], 0, 0, 0) s = (acc', s1)"
    by (cases "range_devices order ([], 0, 0, 0) s")
  show ?thesis
    using hostname_range_devices[OF assms r] by (simp add: Snapshot snd_GetNetworkStats r)
qed

lemma hostname_steps:
  "\<forall>p. Hostname (store s p) = '''' \<Longrightarrow> \<forall>p. Hostname (store (steps srt cs s) p) = ''''"
  by (induction cs arbitrary: s) (simp_all add: hostname_step)

lemma hostname_reachable: "Hostname (store (steps srt cs (NewBandwidthMonitor lip t0)) p) = ''''"
proof -
  have "\<forall>p. Hostname (store (NewBandwidthMonitor lip t0) p) = ''''"
    by (simp add: NewBandwidthMonitor_def zero_DeviceStats_fields)
  from hostname_steps[OF this] show ?thesis by simp
qed

text \<open>
  C10. After any sequence of \<open>UpdateStats\<close> and \<open>GetNetworkStats\<close> calls every
  \<open>DeviceStats\<close> cell has the empty \<open>Hostname\<close>: the records of the registry, the
  copies listed in a snapshot, and the record that \<open>handleGetDevice\<close> encodes.
\<close>

theorem hostname_always_empty:
  "(\<forall>p. Hostname (store (steps srt cs (NewBandwidthMonitor lip t0)) p) = '''') \<and>
   (\<forall>k d. device_of (steps srt cs (NewBandwidthMonitor lip t0)) k = Some d \<longrightarrow> Hostname d = '''') \<and>
   (\<forall>order now ns s1.
      GetNetworkStats srt order now (steps srt cs (NewBandwidthMonitor lip t0)) = (ns, s1) \<longrightarrow>
      (\<forall>p \<in> set (Devices ns). Hostname (store s1 p) = '''')) \<and>
   (\<forall>mac d. handleGetDevice mac (steps srt cs (NewBandwidthMonitor lip t0)) = Json d \<longrightarrow>
      Hostname d = '''')"
proof (intro conjI allI impI ballI)
  fix p
  show "Hostname (store (steps srt cs (NewBandwidthMonitor lip t0)) p) = ''''"
    by (rule hostname_reachable)
next
  fix k d
  assume "device_of (steps srt cs (NewBandwidthMonitor lip t0)) k = Some d"
  then show "Hostname d = ''''"
    using hostname_reachable[of srt cs lip t0] by (auto simp: device_of_def)
next
  fix order now ns s1 p
  assume g: "GetNetworkStats srt order now (steps srt cs (NewBandwidthMonitor lip t0)) = (ns, s1)"
  have "s1 = steps srt (cs @ [Snapshot order now]) (NewBandwidthMonitor lip t0)"
    using g by (simp add: steps_append)
  then show "Hostname (store s1 p) = ''''"
    by (simp only: hostname_reachable)
next
  fix mac d
  assume "handleGetDevice mac (steps srt cs (NewBandwidthMonitor lip t0)) = Json d"
  then show "Hostname d = ''''"
    using hostname_reachable[of srt cs lip t0]
    by (auto simp: handleGetDevice_def handleGetDevice_lookup_def handleGetDevice_respond_def
        split: option.splits)
qed


section \<open>The insertion sort meets the contract of sort.Slice\<close>

lemma mset_insert_by: "mset (insert_by lt x xs) = add_mset x (mset xs)"
  by (induction xs) simp_all

lemma mset_insertion_sort: "mset (insertion_sort lt xs) = mset xs"
  by (induction xs) (simp_all add: mset_insert_by)

lemma set_insert_by: "set (insert_by lt x xs) = insert x (set xs)"
  using mset_insert_by[of lt x xs] by (metis set_mset_add_mset_insert set_mset_mset)

lemma strict_weak_orderD:
  assumes "strict_weak_order lt"
  shows "\<not> lt a a" and "lt a b \<Longrightarrow> lt b c \<Longrightarrow> lt a c" and "lt a b \<Longrightarrow> \<not> lt b a"
proof -
  show i: "\<not> lt a a" for a using assms by (simp add: strict_weak_order_def)
  show t: "lt a b \<Longrightarrow> lt b c \<Longrightarrow> lt a c" for a b c
    using assms unfolding strict_weak_order_def by blast
  show "lt a b \<Longrightarrow> \<not> lt b a" using i t by blast
qed

lemma sorted_insert_by:
  assumes "strict_weak_order lt"
  shows "sorted_wrt (\<lambda>a b. \<not> lt b a) xs \<Longrightarrow> sorted_wrt (\<lambda>a b. \<not> lt b a) (insert_by lt x xs)"
proof (induction xs)
  case Nil
  show ?case by simp
next
  case (Cons y ys)
  show ?case
  proof (cases "lt x y")
    case True
    have "\<not> lt z x" if "z \<in> set (y # ys)" for z
    proof
      assume zx: "lt z x"
      then have "lt z y" using True strict_weak_orderD(2)[OF assms] by blast
      moreover have "z = y \<or> \<not> lt z y" using that Cons.prems by auto
      ultimately show False using strict_weak_orderD(1)[OF assms] by auto
    qed
    then show ?thesis using True Cons.prems by auto
  next
    case False
    then show ?thesis using Cons by (auto simp: set_insert_by)
  qed
qed

lemma sorted_insertion_sort:
  "strict_weak_order lt \<Longrightarrow> sorted_wrt (\<lambda>a b. \<not> lt b a) (insertion_sort lt xs)"
  by (induction xs) (simp_all add: sorted_insert_by)

lemma insertion_sort_contract: "sort_Slice_contract insertion_sort"
  by (simp add: sort_Slice_contract_def mset_insertion_sort sorted_insertion_sort)

lemma strict_weak_order_less_total: "strict_weak_order (less_total st)"
  unfolding strict_weak_order_def less_total_def by auto

lemma contract_mset:
  "sort_Slice_contract srt \<Longrightarrow> mset (srt (less_total st) xs) = mset xs"
  using strict_weak_order_less_total by (auto simp: sort_Slice_contract_def)

lemma contract_sorted:
  "sort_Slice_contract srt \<Longrightarrow>
     sorted_wrt (\<lambda>a b. \<not> less_total st b a) (srt (less_total st) xs)"
  using strict_weak_order_less_total by (auto simp: sort_Slice_contract_def)

lemma sum_list_map_mset_cong:
  fixes f :: "'a \<Rightarrow> 'b::comm_monoid_add"
  shows "mset xs = mset ys \<Longrightarrow> sum_list (map f xs) = sum_list (map f ys)"
  by (metis mset_map sum_mset_sum_list)

section \<open>Totals and copies of the range loop\<close>

lemma range_devices_totals:
  "range_devices order (devs, a, b, c) s = ((devs', a', b', c'), s1) \<Longrightarrow>
   \<forall>p \<in> set devs. p < fresh s \<Longrightarrow>
   a = sum_list (map (\<lambda>p. BytesSent (store s p)) devs) \<Longrightarrow>
   b = sum_list (map (\<lambda>p. BytesRecv (store s p)) devs) \<Longrightarrow>
   c = sum_list (map (\<lambda>p. PacketsSent (store s p) + PacketsRecv (store s p)) devs) \<Longrightarrow>
     (\<forall>p \<in> set devs'. p < fresh s1) \<and>
     a' = sum_list (map (\<lambda>p. BytesSent (store s1 p)) devs') \<and>
     b' = sum_list (map (\<lambda>p. BytesRecv (store s1 p)) devs') \<and>
     c' = sum_list (map (\<lambda>p. PacketsSent (store s1 p) + PacketsRecv (store s1 p)) devs')"
proof (induction order "(devs, a, b, c)" s arbitrary: devs a b c rule: range_devices.induct)
  case (1 s)
  then show ?case by auto
next
  case (2 k ks devs totalSent totalRecv totalPackets s)
  show ?case
  proof (cases "devices s k")
    case None
    from "2.prems"(1) None have
      r: "range_devices ks (devs, totalSent, totalRecv, totalPackets) s = ((devs', a', b', c'), s1)"
      by simp
    from "2.hyps"(1)[OF None r "2.prems"(2-5)] show ?thesis .
  next
    case (Some dev)
    let ?s2 = "s\<lparr>store := (store s)(fresh s := store s dev), fresh := Suc (fresh s)\<rparr>"
    from "2.prems"(1) Some have
      r: "range_devices ks (devs @ [fresh s], totalSent + BytesSent (store s dev),
          totalRecv + BytesRecv (store s dev),
          totalPackets + (PacketsSent (store s dev) + PacketsRecv (store s dev))) ?s2
           = ((devs', a', b', c'), s1)"
      by simp
    have old: "store ?s2 p = store s p" if "p \<in> set devs" for p
      using that "2.prems"(2) by auto
    have lt: "\<forall>p \<in> set (devs @ [fresh s]). p < fresh ?s2"
      using "2.prems"(2) by (auto simp: less_Suc_eq)
    have ea: "totalSent + BytesSent (store s dev)
        = sum_list (map (\<lambda>p. BytesSent (store ?s2 p)) (devs @ [fresh s]))"
      using "2.prems"(3) old by (simp cong: map_cong)
    have eb: "totalRecv + BytesRecv (store s dev)
        = sum_list (map (\<lambda>p. BytesRecv (store ?s2 p)) (devs @ [fresh s]))"
      using "2.prems"(4) old by (simp cong: map_cong)
    have ec: "totalPackets + (PacketsSent (store s dev) + PacketsRecv (store s dev))
        = sum_list (map (\<lambda>p. PacketsSent (store ?s2 p) + PacketsRecv (store ?s2 p)) (devs @ [fresh s]))"
      using "2.prems"(5) old by (simp cong: map_cong)
    from "2.hyps"(2)[OF Some r lt ea eb ec] show ?thesis .
  qed
qed


lemma GetNetworkStats_unfold:
  assumes "GetNetworkStats srt order now s = (ns, s1)"
  obtains devs where
    "range_devices order ([], 0, 0, 0) s = ((devs, TotalSent ns, TotalRecv ns, TotalPackets ns), s1)"
    and "Devices ns = srt (less_total (store s1)) devs"
  using assms by (auto simp: GetNetworkStats_def Let_def split: prod.splits)

text \<open>
  C2, with the sums taken as the code takes them. In the snapshot that
  \<open>GetNetworkStats\<close> returns, \<open>TotalSent\<close> is the \<open>uint64\<close> sum of \<open>BytesSent\<close>
  over the devices the snapshot lists, that is their sum modulo \<open>2 ^ 64\<close>;
  \<open>TotalRecv\<close> is likewise the sum of their \<open>BytesRecv\<close> and \<open>TotalPackets\<close> the
  sum of their \<open>PacketsSent + PacketsRecv\<close>. This holds in every state. Without the
  modulus the statement fails where a total wraps.
\<close>

theorem snapshot_totals_are_sums:
  assumes "sort_Slice_contract srt"
    and "GetNetworkStats srt order now s = (ns, s1)"
  shows "TotalSent ns = sum_list (map (\<lambda>p. BytesSent (store s1 p)) (Devices ns)) \<and>
         TotalRecv ns = sum_list (map (\<lambda>p. BytesRecv (store s1 p)) (Devices ns)) \<and>
         TotalPackets ns
           = sum_list (map (\<lambda>p. PacketsSent (store s1 p) + PacketsRecv (store s1 p)) (Devices ns))"
proof -
  from assms(2) obtain devs where
    r: "range_devices order ([], 0, 0, 0) s = ((devs, TotalSent ns, TotalRecv ns, TotalPackets ns), s1)"
    and d: "Devices ns = srt (less_total (store s1)) devs"
    by (rule GetNetworkStats_unfold)
  have m: "mset (Devices ns) = mset devs"
    by (simp add: d contract_mset[OF assms(1)])
  from range_devices_totals[OF r] have
    "TotalSent ns = sum_list (map (\<lambda>p. BytesSent (store s1 p)) devs)"
    "TotalRecv ns = sum_list (map (\<lambda>p. BytesRecv (store s1 p)) devs)"
    "TotalPackets ns = sum_list (map (\<lambda>p. PacketsSent (store s1 p) + PacketsRecv (store s1 p)) devs)"
    by simp_all
  then show ?thesis
    by (simp add: sum_list_map_mset_cong[OF m])
qed

lemmas snapshot_defs = GetNetworkStats_def less_total_def scenario_A_def run_defs

theorem snapshot_totals_are_sums_witness:
  "sort_Slice_contract insertion_sort \<and>
   fst (GetNetworkStats insertion_sort [macB, macA] 5
          (steps insertion_sort scenario_A (NewBandwidthMonitor ''192.168.1.5'' 0)))
     = \<lparr>Devices = [3, 2], TotalSent = 1692, TotalRecv = 1564, TotalPackets = 5,
        ActiveDevices = 2, MonitorDuration = 5, Timestamp = 5\<rparr> \<and>
   sum_list (map (\<lambda>p. BytesSent (store (snd (GetNetworkStats insertion_sort [macB, macA] 5
          (steps insertion_sort scenario_A (NewBandwidthMonitor ''192.168.1.5'' 0)))) p)) [3, 2]) = 1692 \<and>
   sum_list (map (\<lambda>p. BytesRecv (store (snd (GetNetworkStats insertion_sort [macB, macA] 5
          (steps insertion_sort scenario_A (NewBandwidthMonitor ''192.168.1.5'' 0)))) p)) [3, 2]) = 1564"
proof -
  let ?g = "GetNetworkStats insertion_sort [macB, macA] 5
          (steps insertion_sort scenario_A (NewBandwidthMonitor ''192.168.1.5'' 0))"
  have e: "fst ?g = \<lparr>Devices = [3, 2], TotalSent = 1692, TotalRecv = 1564, TotalPackets = 5,
        ActiveDevices = 2, MonitorDuration = 5, Timestamp = 5\<rparr>"
    by (simp add: snapshot_defs)
  have g: "?g = (fst ?g, snd ?g)" by simp
  from snapshot_totals_are_sums[OF insertion_sort_contract g] e insertion_sort_contract
  show ?thesis by simp
qed

text \<open>
  C4, with the sort key taken as the code takes it. The devices of a snapshot are
  listed in non-increasing order of the \<open>uint64\<close> sum \<open>BytesSent + BytesRecv\<close> that
  the comparison function computes, that is of \<open>(BytesSent + BytesRecv) mod 2 ^ 64\<close>:
  an entry never has a smaller key than an entry after it. Nothing is said about
  entries with equal keys. Without the modulus the statement fails where a key wraps.
\<close>

theorem snapshot_devices_ordered:
  assumes "sort_Slice_contract srt"
    and "GetNetworkStats srt order now s = (ns, s1)"
  shows "\<forall>i j. i < j \<longrightarrow> j < length (Devices ns) \<longrightarrow>
           BytesSent (store s1 (Devices ns ! j)) + BytesRecv (store s1 (Devices ns ! j))
             \<le> BytesSent (store s1 (Devices ns ! i)) + BytesRecv (store s1 (Devices ns ! i))"
proof -
  from assms(2) obtain devs where
    d: "Devices ns = srt (less_total (store s1)) devs"
    by (rule GetNetworkStats_unfold)
  have "sorted_wrt (\<lambda>a b. \<not> less_total (store s1) b a) (Devices ns)"
    unfolding d by (rule contract_sorted[OF assms(1)])
  then show ?thesis
    by (simp add: sorted_wrt_iff_nth_less less_total_def not_less)
qed

theorem snapshot_devices_ordered_witness:
  "sort_Slice_contract insertion_sort \<and>
   Devices (fst (GetNetworkStats insertion_sort [macB, macA] 5
          (steps insertion_sort scenario_A (NewBandwidthMonitor ''192.168.1.5'' 0)))) = [3, 2] \<and>
   BytesSent (store (snd (GetNetworkStats insertion_sort [macB, macA] 5
          (steps insertion_sort scenario_A (NewBandwidthMonitor ''192.168.1.5'' 0)))) 2) +
   BytesRecv (store (snd (GetNetworkStats insertion_sort [macB, macA] 5
          (steps insertion_sort scenario_A (NewBandwidthMonitor ''192.168.1.5'' 0)))) 2)
   \<le> BytesSent (store (snd (GetNetworkStats insertion_sort [macB, macA] 5
          (steps insertion_sort scenario_A (NewBandwidthMonitor ''192.168.1.5'' 0)))) 3) +
     BytesRecv (store (snd (GetNetworkStats insertion_sort [macB, macA] 5
          (steps insertion_sort scenario_A (NewBandwidthMonitor ''192.168.1.5'' 0)))) 3)"
proof -
  let ?g = "GetNetworkStats insertion_sort [macB, macA] 5
          (steps insertion_sort scenario_A (NewBandwidthMonitor ''192.168.1.5'' 0))"
  have e: "Devices (fst ?g) = [3, 2]"
    by (simp add: snapshot_defs)
  have g: "?g = (fst ?g, snd ?g)" by simp
  from snapshot_devices_ordered[OF insertion_sort_contract g, rule_format, of 0 1] e
    insertion_sort_contract
  show ?thesis by simp
qed

section \<open>Snapshots own their records\<close>

lemma device_of_alloc:
  assumes "wf_state s"
  shows "device_of (s\<lparr>store := (store s)(fresh s := d), fresh := Suc (fresh s)\<rparr>) = device_of s"
proof (rule ext)
  fix k
  show "device_of (s\<lparr>store := (store s)(fresh s := d), fresh := Suc (fresh s)\<rparr>) k = device_of s k"
    using wfs_not_fresh[OF assms, of k] by (cases "devices s k") (auto simp: device_of_def)
qed

lemma wfs_alloc:
  "wf_state s \<Longrightarrow> wf_state (s\<lparr>store := (store s)(fresh s := d), fresh := Suc (fresh s)\<rparr>)"
  unfolding wf_state_def by (auto simp: less_Suc_eq)

lemma range_devices_copies:
  "range_devices order (devs, a, b, c) s = ((devs', a', b', c'), s1) \<Longrightarrow>
   wf_state s \<Longrightarrow> f0 \<le> fresh s \<Longrightarrow>
   \<forall>p \<in> set devs. f0 \<le> p \<and> p < fresh s \<and> (\<exists>k. device_of s k = Some (store s p)) \<Longrightarrow>
     \<forall>p \<in> set devs'. f0 \<le> p \<and> p < fresh s1 \<and> (\<exists>k. device_of s k = Some (store s1 p))"
proof (induction order "(devs, a, b, c)" s arbitrary: devs a b c rule: range_devices.induct)
  case (1 s)
  then show ?case by auto
next
  case (2 k ks devs totalSent totalRecv totalPackets s)
  show ?case
  proof (cases "devices s k")
    case None
    from "2.prems"(1) None have
      r: "range_devices ks (devs, totalSent, totalRecv, totalPackets) s = ((devs', a', b', c'), s1)"
      by simp
    from "2.hyps"(1)[OF None r "2.prems"(2-4)] show ?thesis .
  next
    case (Some dev)
    let ?s2 = "s\<lparr>store := (store s)(fresh s := store s dev), fresh := Suc (fresh s)\<rparr>"
    from "2.prems"(1) Some have
      r: "range_devices ks (devs @ [fresh s], totalSent + BytesSent (store s dev),
          totalRecv + BytesRecv (store s dev),
          totalPackets + (PacketsSent (store s dev) + PacketsRecv (store s dev))) ?s2
           = ((devs', a', b', c'), s1)"
      by simp
    have w2: "wf_state ?s2" by (rule wfs_alloc[OF "2.prems"(2)])
    have v2: "device_of ?s2 = device_of s" by (rule device_of_alloc[OF "2.prems"(2)])
    have f2: "f0 \<le> fresh ?s2" using "2.prems"(3) by simp
    have k: "device_of s k = Some (store s dev)" by (simp add: device_of_def Some)
    have inv: "\<forall>p \<in> set (devs @ [fresh s]).
        f0 \<le> p \<and> p < fresh ?s2 \<and> (\<exists>k. device_of ?s2 k = Some (store ?s2 p))"
      unfolding v2 using "2.prems"(3,4) k by (auto simp: less_Suc_eq)
    from "2.hyps"(2)[OF Some r w2 f2 inv] show ?thesis unfolding v2 .
  qed
qed

lemma protected_obtain:
  assumes "p < fresh s" "\<forall>k. devices s k \<noteq> Some p" "obtain_device key ip s = (q, s1)"
  shows "store s1 p = store s p \<and> p < fresh s1 \<and> (\<forall>k. devices s1 k \<noteq> Some p) \<and> q \<noteq> p"
  using assms by (auto simp: obtain_device_def split: option.splits if_splits)

lemma protected_UpdateStats_src:
  assumes "p < fresh s" "\<forall>k. devices s k \<noteq> Some p"
  shows "store (UpdateStats_src now m ip sz s) p = store s p \<and>
         p < fresh (UpdateStats_src now m ip sz s) \<and>
         (\<forall>k. devices (UpdateStats_src now m ip sz s) k \<noteq> Some p)"
proof (cases "m \<noteq> '''' \<and> m \<noteq> broadcastMAC")
  case True
  obtain q s1 where o: "obtain_device m ip s = (q, s1)"
    by (cases "obtain_device m ip s")
  from protected_obtain[OF assms o] True o show ?thesis
    by (simp add: UpdateStats_src_def)
next
  case False
  then show ?thesis using assms by (auto simp: UpdateStats_src_def)
qed

lemma protected_UpdateStats_dst:
  assumes "p < fresh s" "\<forall>k. devices s k \<noteq> Some p"
  shows "store (UpdateStats_dst now m ip sz s) p = store s p \<and>
         p < fresh (UpdateStats_dst now m ip sz s) \<and>
         (\<forall>k. devices (UpdateStats_dst now m ip sz s) k \<noteq> Some p)"
proof (cases "m \<noteq> '''' \<and> m \<noteq> broadcastMAC")
  case True
  obtain q s1 where o: "obtain_device m ip s = (q, s1)"
    by (cases "obtain_device m ip s")
  from protected_obtain[OF assms o] True o show ?thesis
    by (simp add: UpdateStats_dst_def)
next
  case False
  then show ?thesis using assms by (auto simp: UpdateStats_dst_def)
qed

lemma protected_step:
  assumes "p < fresh s" "\<forall>k. devices s k \<noteq> Some p"
  shows "store (step srt c s) p = store s p \<and> p < fresh (step srt c s) \<and>
         (\<forall>k. devices (step srt c s) k \<noteq> Some p)"
proof (cases c)
  case (Update now sm dm si di sz)
  let ?s1 = "UpdateStats_src now sm si sz s"
  have 1: "store ?s1 p = store s p" "p < fresh ?s1" "\<forall>k. devices ?s1 k \<noteq> Some p"
    using protected_UpdateStats_src[OF assms] by auto
  from protected_UpdateStats_dst[OF 1(2,3)] 1(1) show ?thesis
    by (simp add: Update UpdateStats_def)
next
  case (Snapshot order now)
  obtain acc' s1 where r: "range_devices order ([], 0, 0, 0) s = (acc', s1)"
    by (cases "range_devices order ([], 0, 0, 0) s")
  from range_devices_frame[OF r] assms show ?thesis
    by (simp add: Snapshot snd_GetNetworkStats r)
qed

lemma protected_steps:
  "p < fresh s \<Longrightarrow> \<forall>k. devices s k \<noteq> Some p \<Longrightarrow> store (steps srt cs s) p = store s p"
proof (induction cs arbitrary: s)
  case Nil
  show ?case by simp
next
  case (Cons c cs)
  from protected_step[OF Cons.prems, of srt c] Cons.IH[of "step srt c s"]
  show ?case by simp
qed

text \<open>
  C8. Every device entry of a snapshot is a cell of its own that holds a copy of a
  record the registry had when the snapshot was taken, and no later sequence of
  \<open>UpdateStats\<close> and \<open>GetNetworkStats\<close> calls changes any field of that cell. The
  aggregate fields are values of the snapshot itself.
\<close>

theorem snapshot_is_owned_copy:
  assumes "sort_Slice_contract srt"
    and "GetNetworkStats srt order now (steps srt cs (NewBandwidthMonitor lip t0)) = (ns, s1)"
  shows "\<forall>p \<in> set (Devices ns).
           (\<exists>k. device_of (steps srt cs (NewBandwidthMonitor lip t0)) k = Some (store s1 p)) \<and>
           (\<forall>k. devices s1 k \<noteq> Some p) \<and>
           (\<forall>later. store (steps srt later s1) p = store s1 p)"
proof
  fix p
  assume p: "p \<in> set (Devices ns)"
  let ?s = "steps srt cs (NewBandwidthMonitor lip t0)"
  from assms(2) obtain devs where
    r: "range_devices order ([], 0, 0, 0) ?s = ((devs, TotalSent ns, TotalRecv ns, TotalPackets ns), s1)"
    and d: "Devices ns = srt (less_total (store s1)) devs"
    by (rule GetNetworkStats_unfold)
  have w: "wf_state ?s" by (rule wfs_reachable)
  have "set (Devices ns) = set devs"
    using contract_mset[OF assms(1), of "store s1" devs] by (metis d set_mset_mset)
  with p have pd: "p \<in> set devs" by simp
  from range_devices_copies[OF r w, of "fresh ?s"] pd
  have c: "fresh ?s \<le> p" "p < fresh s1" "\<exists>k. device_of ?s k = Some (store s1 p)"
    by auto
  from range_devices_frame[OF r] have dv: "devices s1 = devices ?s" by simp
  have nk: "\<forall>k. devices s1 k \<noteq> Some p"
  proof
    fix k
    show "devices s1 k \<noteq> Some p"
      using wfs_lt[OF w, of k p] c(1) by (auto simp: dv)
  qed
  from protected_steps[OF c(2) nk] c(3) nk
  show "(\<exists>k. device_of ?s k = Some (store s1 p)) \<and> (\<forall>k. devices s1 k \<noteq> Some p) \<and>
        (\<forall>later. store (steps srt later s1) p = store s1 p)"
    by simp
qed


theorem snapshot_is_owned_copy_witness:
  "sort_Slice_contract insertion_sort \<and>
   Devices (fst (GetNetworkStats insertion_sort [macB, macA] 5
          (steps insertion_sort scenario_A (NewBandwidthMonitor ''192.168.1.5'' 0)))) = [3, 2] \<and>
   store (snd (GetNetworkStats insertion_sort [macB, macA] 5
          (steps insertion_sort scenario_A (NewBandwidthMonitor ''192.168.1.5'' 0)))) 3
     = \<lparr>MAC = macA, IP = ''10.0.0.1'', BytesSent = 192, BytesRecv = 1500,
        PacketsSent = 2, PacketsRecv = 1, LastSeen = 3, Hostname = ''''\<rparr> \<and>
   store (steps insertion_sort later_frame (snd (GetNetworkStats insertion_sort [macB, macA] 5
          (steps insertion_sort scenario_A (NewBandwidthMonitor ''192.168.1.5'' 0))))) 3
     = \<lparr>MAC = macA, IP = ''10.0.0.1'', BytesSent = 192, BytesRecv = 1500,
        PacketsSent = 2, PacketsRecv = 1, LastSeen = 3, Hostname = ''''\<rparr> \<and>
   device_of (steps insertion_sort later_frame (snd (GetNetworkStats insertion_sort [macB, macA] 5
          (steps insertion_sort scenario_A (NewBandwidthMonitor ''192.168.1.5'' 0))))) macA
     = Some \<lparr>MAC = macA, IP = ''10.0.0.1'', BytesSent = 1192, BytesRecv = 1500,
        PacketsSent = 3, PacketsRecv = 1, LastSeen = 9, Hostname = ''''\<rparr>"
proof -
  let ?g = "GetNetworkStats insertion_sort [macB, macA] 5
          (steps insertion_sort scenario_A (NewBandwidthMonitor ''192.168.1.5'' 0))"
  have e: "Devices (fst ?g) = [3, 2]"
    by (simp add: snapshot_defs)
  have c: "store (snd ?g) 3 = \<lparr>MAC = macA, IP = ''10.0.0.1'', BytesSent = 192, BytesRecv = 1500,
        PacketsSent = 2, PacketsRecv = 1, LastSeen = 3, Hostname = ''''\<rparr>"
    by (simp add: snapshot_defs)
  have r: "device_of (steps insertion_sort later_frame (snd ?g)) macA
     = Some \<lparr>MAC = macA, IP = ''10.0.0.1'', BytesSent = 1192, BytesRecv = 1500,
        PacketsSent = 3, PacketsRecv = 1, LastSeen = 9, Hostname = ''''\<rparr>"
    by (simp add: snapshot_defs later_frame_def)
  have g: "?g = (fst ?g, snd ?g)" by simp
  have "3 \<in> set (Devices (fst ?g))" by (simp add: e)
  with snapshot_is_owned_copy[OF insertion_sort_contract g]
  have "store (steps insertion_sort later_frame (snd ?g)) 3 = store (snd ?g) 3"
    by blast
  with e c r insertion_sort_contract show ?thesis by simp
qed


section \<open>Derived sums that wrap\<close>

text \<open>
  C2, as the claim words it, fails where the total wraps: two devices have sent
  \<open>2 ^ 63\<close> bytes each, both counters are in range, and the snapshot lists both
  devices with \<open>TotalSent = 0\<close>, while their \<open>BytesSent\<close> add up to \<open>2 ^ 64\<close>.
\<close>

theorem snapshot_total_wraps_counterexample:
  "Devices (fst (GetNetworkStats insertion_sort [macA, macB] 5
      (steps insertion_sort scenario_total_wraps (NewBandwidthMonitor ''192.168.1.5'' 0)))) = [3, 2] \<and>
   unat (TotalSent (fst (GetNetworkStats insertion_sort [macA, macB] 5
      (steps insertion_sort scenario_total_wraps (NewBandwidthMonitor ''192.168.1.5'' 0))))) = 0 \<and>
   sum_list (map (unat \<circ> BytesSent \<circ> store (snd (GetNetworkStats insertion_sort [macA, macB] 5
      (steps insertion_sort scenario_total_wraps (NewBandwidthMonitor ''192.168.1.5'' 0)))))
     (Devices (fst (GetNetworkStats insertion_sort [macA, macB] 5
      (steps insertion_sort scenario_total_wraps (NewBandwidthMonitor ''192.168.1.5'' 0))))))
     = 18446744073709551616"
  by (simp add: GetNetworkStats_def less_total_def scenario_total_wraps_def run_defs)

text \<open>
  C4, as the claim words it, fails where the sort key wraps: A has sent
  \<open>2 ^ 64 - 1\<close> bytes and received 2, B has sent 100 bytes, all counters are in range.
  The comparison function computes 1 for A and 100 for B and so puts B strictly
  before A: the snapshot lists B (cell 3) before A (cell 2), although
  \<open>BytesSent + BytesRecv\<close> is \<open>2 ^ 64 + 1\<close> for A and 100 for B.
\<close>

theorem snapshot_order_wraps_counterexample:
  "less_total (store (snd (GetNetworkStats insertion_sort [macA, macB] 5
      (steps insertion_sort scenario_order_wraps (NewBandwidthMonitor ''192.168.1.5'' 0))))) 3 2 \<and>
   Devices (fst (GetNetworkStats insertion_sort [macA, macB] 5
      (steps insertion_sort scenario_order_wraps (NewBandwidthMonitor ''192.168.1.5'' 0)))) = [3, 2] \<and>
   MAC (store (snd (GetNetworkStats insertion_sort [macA, macB] 5
      (steps insertion_sort scenario_order_wraps (NewBandwidthMonitor ''192.168.1.5'' 0)))) 3) = macB \<and>
   unat (BytesSent (store (snd (GetNetworkStats insertion_sort [macA, macB] 5
      (steps insertion_sort scenario_order_wraps (NewBandwidthMonitor ''192.168.1.5'' 0)))) 3)) +
   unat (BytesRecv (store (snd (GetNetworkStats insertion_sort [macA, macB] 5
      (steps insertion_sort scenario_order_wraps (NewBandwidthMonitor ''192.168.1.5'' 0)))) 3)) = 100 \<and>
   MAC (store (snd (GetNetworkStats insertion_sort [macA, macB] 5
      (steps insertion_sort scenario_order_wraps (NewBandwidthMonitor ''192.168.1.5'' 0)))) 2) = macA \<and>
   unat (BytesSent (store (snd (GetNetworkStats insertion_sort [macA, macB] 5
      (steps insertion_sort scenario_order_wraps (NewBandwidthMonitor ''192.168.1.5'' 0)))) 2)) +
   unat (BytesRecv (store (snd (GetNetworkStats insertion_sort [macA, macB] 5
      (steps insertion_sort scenario_order_wraps (NewBandwidthMonitor ''192.168.1.5'' 0)))) 2))
     = 18446744073709551617"
  by (simp add: GetNetworkStats_def less_total_def scenario_order_wraps_def run_defs)


text \<open>
  Read as natural numbers, the totals of a snapshot are the sums over the listed devices
  modulo \<open>2 ^ 64\<close>, and the devices are listed in non-increasing order of
  \<open>(BytesSent + BytesRecv) mod 2 ^ 64\<close>.
\<close>

lemma snapshot_totals_modulo:
  assumes "sort_Slice_contract srt"
    and "GetNetworkStats srt order now s = (ns, s1)"
  shows "unat (TotalSent ns)
           = sum_list (map (unat \<circ> BytesSent \<circ> store s1) (Devices ns)) mod 2 ^ 64"
    and "unat (TotalRecv ns)
           = sum_list (map (unat \<circ> BytesRecv \<circ> store s1) (Devices ns)) mod 2 ^ 64"
proof -
  from assms(2) obtain devs where
    r: "range_devices order ([], 0, 0, 0) s = ((devs, TotalSent ns, TotalRecv ns, TotalPackets ns), s1)"
    and d: "Devices ns = srt (less_total (store s1)) devs"
    by (rule GetNetworkStats_unfold)
  have m: "mset (Devices ns) = mset devs"
    by (simp add: d contract_mset[OF assms(1)])
  from range_devices_totals[OF r] have
    "TotalSent ns = sum_list (map (\<lambda>p. BytesSent (store s1 p)) devs)"
    "TotalRecv ns = sum_list (map (\<lambda>p. BytesRecv (store s1 p)) devs)"
    by simp_all
  then have
    "TotalSent ns = sum_list (map (\<lambda>p. BytesSent (store s1 p)) (Devices ns))"
    "TotalRecv ns = sum_list (map (\<lambda>p. BytesRecv (store s1 p)) (Devices ns))"
    by (simp_all add: sum_list_map_mset_cong[OF m])
  then show "unat (TotalSent ns)
           = sum_list (map (unat \<circ> BytesSent \<circ> store s1) (Devices ns)) mod 2 ^ 64"
    and "unat (TotalRecv ns)
           = sum_list (map (unat \<circ> BytesRecv \<circ> store s1) (Devices ns)) mod 2 ^ 64"
    by (simp_all add: sum_list_u64_unat comp_def)
qed

lemma snapshot_order_modulo:
  assumes "sort_Slice_contract srt"
    and "GetNetworkStats srt order now s = (ns, s1)"
    and "i < j" and "j < length (Devices ns)"
  shows "(unat (BytesSent (store s1 (Devices ns ! j))) + unat (BytesRecv (store s1 (Devices ns ! j))))
           mod 2 ^ 64
         \<le> (unat (BytesSent (store s1 (Devices ns ! i))) + unat (BytesRecv (store s1 (Devices ns ! i))))
           mod 2 ^ 64"
proof -
  from assms(2) obtain devs where
    d: "Devices ns = srt (less_total (store s1)) devs"
    by (rule GetNetworkStats_unfold)
  have "sorted_wrt (\<lambda>a b. \<not> less_total (store s1) b a) (Devices ns)"
    unfolding d by (rule contract_sorted[OF assms(1)])
  with assms(3,4) have
    "BytesSent (store s1 (Devices ns ! j)) + BytesRecv (store s1 (Devices ns ! j))
       \<le> BytesSent (store s1 (Devices ns ! i)) + BytesRecv (store s1 (Devices ns ! i))"
    by (simp add: sorted_wrt_iff_nth_less less_total_def not_less)
  then show ?thesis
    by (simp add: word_le_nat_alt unat_word_ariths)
qed


section \<open>A snapshot of the concrete run has empty hostnames\<close>

theorem hostname_always_empty_witness:
  "device_of (steps insertion_sort scenario_A (NewBandwidthMonitor ''192.168.1.5'' 0)) macA
     = Some \<lparr>MAC = macA, IP = ''10.0.0.1'', BytesSent = 192, BytesRecv = 1500,
             PacketsSent = 2, PacketsRecv = 1, LastSeen = 3, Hostname = ''''\<rparr> \<and>
   Devices (fst (GetNetworkStats insertion_sort [macB, macA] 5
          (steps insertion_sort scenario_A (NewBandwidthMonitor ''192.168.1.5'' 0)))) = [3, 2] \<and>
   Hostname (store (snd (GetNetworkStats insertion_sort [macB, macA] 5
          (steps insertion_sort scenario_A (NewBandwidthMonitor ''192.168.1.5'' 0)))) 3) = '''' \<and>
   Hostname (store (snd (GetNetworkStats insertion_sort [macB, macA] 5
          (steps insertion_sort scenario_A (NewBandwidthMonitor ''192.168.1.5'' 0)))) 2) = ''''"
proof -
  let ?s = "steps insertion_sort scenario_A (NewBandwidthMonitor ''192.168.1.5'' 0)"
  let ?g = "GetNetworkStats insertion_sort [macB, macA] 5 ?s"
  have d: "device_of ?s macA
     = Some \<lparr>MAC = macA, IP = ''10.0.0.1'', BytesSent = 192, BytesRecv = 1500,
             PacketsSent = 2, PacketsRecv = 1, LastSeen = 3, Hostname = ''''\<rparr>"
    by (simp add: scenario_A_def run_defs)
  have e: "Devices (fst ?g) = [3, 2]"
    by (simp add: snapshot_defs)
  have g: "?g = (fst ?g, snd ?g)" by simp
  from hostname_always_empty[of insertion_sort scenario_A "''192.168.1.5''" 0]
  have "\<forall>p \<in> set (Devices (fst ?g)). Hostname (store (snd ?g) p) = ''''"
    using g by blast
  with d e show ?thesis by simp
qed

section \<open>The broadcast queue\<close>

lemma broadcast_range_devices:
  "range_devices order acc s = (acc', s1) \<Longrightarrow> broadcast s1 = broadcast s"
  by (drule range_devices_frame) simp

lemma broadcast_GetNetworkStats:
  "broadcast (snd (GetNetworkStats srt order now s)) = broadcast s"
proof -
  obtain acc' s1 where r: "range_devices order ([], 0, 0, 0) s = (acc', s1)"
    by (cases "range_devices order ([], 0, 0, 0) s")
  show ?thesis
    using broadcast_range_devices[OF r] by (simp add: snd_GetNetworkStats r)
qed

lemma tryPush_accepts:
  "length (broadcast s) < broadcast_cap \<Longrightarrow>
     tryPush stats s = (True, s\<lparr>broadcast := broadcast s @ [stats]\<rparr>)"
  by (simp add: tryPush_def chan_send_def)

text \<open>
  C5. When the channel holds 256 snapshots a plain send would block; the
  \<open>select\<close> with its \<open>default\<close> branch returns at once, takes the branch that does
  not send, and leaves the whole state, so also the content of the queue from oldest to
  newest, as it was. A tick of the producer in that state reports the same and leaves
  the queue unchanged.
\<close>

theorem tryPush_on_full_queue:
  assumes "length (broadcast s) = broadcast_cap"
  shows "chan_send (broadcast s) stats = None \<and>
         tryPush stats s = (False, s) \<and>
         fst (tick srt order now s) = False \<and>
         broadcast (snd (tick srt order now s)) = broadcast s"
proof -
  have c: "chan_send (broadcast s) stats = None"
    using assms by (simp add: chan_send_def)
  then have t: "tryPush stats s = (False, s)"
    by (simp add: tryPush_def)
  obtain ns s1 where g: "GetNetworkStats srt order now s = (ns, s1)"
    by (cases "GetNetworkStats srt order now s")
  have b: "broadcast s1 = broadcast s"
    using broadcast_GetNetworkStats[of srt order now s] by (simp add: g)
  then have "tryPush ns s1 = (False, s1)"
    using assms by (simp add: tryPush_def chan_send_def)
  then have "tick srt order now s = (False, s1)"
    by (simp add: tick_def g)
  with c t b show ?thesis by simp
qed

theorem tryPush_on_full_queue_witness:
  "length (broadcast full_queue) = broadcast_cap \<and>
   tryPush empty_snapshot full_queue = (False, full_queue) \<and>
   fst (tick insertion_sort [] 7 full_queue) = False \<and>
   broadcast (snd (tick insertion_sort [] 7 full_queue)) = replicate 256 empty_snapshot"
proof -
  have l: "length (broadcast full_queue) = broadcast_cap"
    by (simp add: full_queue_def broadcast_cap_def)
  have b: "broadcast full_queue = replicate 256 empty_snapshot"
    by (simp add: full_queue_def)
  from tryPush_on_full_queue[OF l, of empty_snapshot insertion_sort "[]" 7] l b
  show ?thesis by simp
qed

section \<open>broadcastStats\<close>

lemma deliver_parks:
  "0 < readers (clientsMu s) \<Longrightarrow> c \<in> set order \<Longrightarrow> c \<in> clients s \<Longrightarrow> write_fails c \<Longrightarrow>
     \<exists>s'. deliver write_fails stats order s = Parked s' \<and> clients s' = clients s"
proof (induction order arbitrary: s)
  case Nil
  then show ?case by simp
next
  case (Cons client rest)
  show ?case
  proof (cases "client \<in> clients s")
    case False
    with Cons.prems have "c \<in> set rest" by auto
    from Cons.IH[OF Cons.prems(1) this Cons.prems(3,4)] False show ?thesis by simp
  next
    case True
    show ?thesis
    proof (cases "write_fails client")
      case True
      with \<open>client \<in> clients s\<close> Cons.prems(1) show ?thesis
        by (simp add: Lock_def Let_def)
    next
      case False
      with Cons.prems have cr: "c \<in> set rest" by auto
      let ?s' = "s\<lparr>delivered := (delivered s)(client := delivered s client @ [stats])\<rparr>"
      have "\<exists>s'. deliver write_fails stats rest ?s' = Parked s' \<and> clients s' = clients ?s'"
        by (rule Cons.IH) (use Cons.prems cr in simp_all)
      with False \<open>client \<in> clients s\<close> show ?thesis by simp
    qed
  qed
qed

lemma broadcast_one_parks:
  assumes "\<not> writer (clientsMu s)" "c \<in> set order" "c \<in> clients s" "write_fails c"
  shows "\<exists>s'. broadcast_one write_fails order stats s = Parked s' \<and> clients s' = clients s"
proof -
  let ?m = "(clientsMu s)\<lparr>readers := Suc (readers (clientsMu s))\<rparr>"
  have r: "RLock (clientsMu s) = Some ?m" using assms(1) by (simp add: RLock_def)
  have "\<exists>s'. deliver write_fails stats order (s\<lparr>clientsMu := ?m\<rparr>) = Parked s' \<and>
      clients s' = clients (s\<lparr>clientsMu := ?m\<rparr>)"
    by (rule deliver_parks) (use assms in simp_all)
  then show ?thesis by (auto simp: broadcast_one_def r)
qed

text \<open>
  C7, evaluated on the code. Subscribers 1 and 2 are connected and the write to
  subscriber 1 fails. Visiting 1 first, the broadcaster closes the connection of 1 and
  is then parked on \<open>clientsMu.Lock()\<close>, because it still holds the read lock it took
  before the loop: subscriber 1 stays in the set of clients and nothing is written to
  subscriber 2. Visiting 2 first, the snapshot reaches 2, and the broadcaster is parked
  in the same way with 1 still in the set.
\<close>

theorem broadcast_failure_parks_the_broadcaster:
  "(case broadcast_one write_to_1_fails [1, 2] empty_snapshot two_subscribers of
      Finished s' \<Rightarrow> False
    | Parked s' \<Rightarrow>
        clients s' = {1, 2} \<and> closed s' = {1} \<and> delivered s' 2 = [] \<and>
        clientsMu s' = \<lparr>readers = 1, writer = False\<rparr>) \<and>
   (case broadcast_one write_to_1_fails [2, 1] empty_snapshot two_subscribers of
      Finished s' \<Rightarrow> False
    | Parked s' \<Rightarrow>
        clients s' = {1, 2} \<and> closed s' = {1} \<and> delivered s' 2 = [empty_snapshot] \<and>
        clientsMu s' = \<lparr>readers = 1, writer = False\<rparr>)"
  by (simp add: broadcast_one_def RLock_def Lock_def two_subscribers_def write_to_1_fails_def
      NewBandwidthMonitor_def Let_def)

section \<open>handleGetDevice\<close>

lemma handleGetDevice_sequential:
  "handleGetDevice mac s = (case device_of s mac of None \<Rightarrow> NotFound | Some d \<Rightarrow> Json d)"
  by (simp add: handleGetDevice_def handleGetDevice_lookup_def handleGetDevice_respond_def
      device_of_def split: option.splits)

lemma handleGetDevice_absent:
  "devices s mac = None \<Longrightarrow> handleGetDevice mac s = NotFound"
  by (simp add: handleGetDevice_def handleGetDevice_lookup_def handleGetDevice_respond_def)

text \<open>
  C9, evaluated on the code. After the first frame the record of A has 64 bytes and one
  packet sent. The handler looks A up and gets the registry's own pointer, cell 0. Run
  without interruption it answers with that record, and an identity that is not
  registered gets \<open>NotFound\<close>. But the answer is built after the lock is released:
  when a frame of 1000 bytes from A is attributed in between, the answer carries 1064
  bytes and two packets, and when \<open>UpdateStats\<close> has only come as far as line 91 it
  carries 1064 bytes with one packet, a record the registry holds after no call.
\<close>

theorem handleGetDevice_reads_live_record:
  "handleGetDevice_lookup macA one_frame = Some 0 \<and>
   handleGetDevice macA one_frame
     = Json \<lparr>MAC = macA, IP = ''10.0.0.1'', BytesSent = 64, BytesRecv = 0,
             PacketsSent = 1, PacketsRecv = 0, LastSeen = 1, Hostname = ''''\<rparr> \<and>
   handleGetDevice ''cc:cc:cc:cc:cc:cc'' one_frame = NotFound \<and>
   handleGetDevice_respond (handleGetDevice_lookup macA one_frame)
       (steps insertion_sort later_frame one_frame)
     = Json \<lparr>MAC = macA, IP = ''10.0.0.1'', BytesSent = 1064, BytesRecv = 0,
             PacketsSent = 2, PacketsRecv = 0, LastSeen = 9, Hostname = ''''\<rparr> \<and>
   handleGetDevice_respond (handleGetDevice_lookup macA one_frame)
       (UpdateStats_src_upto_line_91 macA ''10.0.0.1'' 1000 one_frame)
     = Json \<lparr>MAC = macA, IP = ''10.0.0.1'', BytesSent = 1064, BytesRecv = 0,
             PacketsSent = 1, PacketsRecv = 0, LastSeen = 1, Hostname = ''''\<rparr>"
  by (simp add: handleGetDevice_def handleGetDevice_lookup_def handleGetDevice_respond_def
      UpdateStats_src_upto_line_91_def one_frame_def later_frame_def scenario_A_def run_defs)


section \<open>The counters read as natural numbers\<close>

text \<open>
  The sums above are sums of \<open>uint64\<close> values. Read as natural numbers, a counter is
  the sum of the frame sizes modulo \<open>2 ^ 64\<close>, and it is that sum itself as long as
  the sum stays below \<open>2 ^ 64\<close>.
\<close>

lemma bytes_sent_modulo:
  assumes "device_of (steps srt cs (NewBandwidthMonitor lip t0)) k = Some d"
  shows "unat (BytesSent d) = sum_list (map unat (sent_sizes k cs)) mod 2 ^ 64"
    and "unat (BytesRecv d) = sum_list (map unat (recv_sizes k cs)) mod 2 ^ 64"
proof -
  from assms have f: "fold (absorb k) cs None = Some d"
    by (simp add: device_of_reachable)
  from fold_absorb_counters[OF f]
  have "BytesSent d = sum_list (sent_sizes k cs)" "BytesRecv d = sum_list (recv_sizes k cs)"
    by simp_all
  then show "unat (BytesSent d) = sum_list (map unat (sent_sizes k cs)) mod 2 ^ 64"
    and "unat (BytesRecv d) = sum_list (map unat (recv_sizes k cs)) mod 2 ^ 64"
    by (simp_all add: sum_list_u64_unat)
qed

lemma bytes_sent_without_overflow:
  assumes "device_of (steps srt cs (NewBandwidthMonitor lip t0)) k = Some d"
    and "sum_list (map unat (sent_sizes k cs)) < 2 ^ 64"
  shows "unat (BytesSent d) = sum_list (map unat (sent_sizes k cs))"
  using bytes_sent_modulo(1)[OF assms(1)] assms(2) by simp

lemma bytes_sent_wraps:
  "device_of (steps insertion_sort
      [Update 1 macA macB '''' '''' (- 1), Update 2 macA macB '''' '''' (- 1)]
      (NewBandwidthMonitor ''192.168.1.5'' 0)) macA
     = Some \<lparr>MAC = macA, IP = '''', BytesSent = - 2, BytesRecv = 0,
             PacketsSent = 2, PacketsRecv = 0, LastSeen = 2, Hostname = ''''\<rparr>"
  by (simp add: run_defs)

end
